theory Spec2Isabelle
  imports Complex_Main "HOL-Library.Word"
begin

section \<open>The segment manager of the log (SegmentManager.cc)\<close>

text \<open>
  The theory embeds the C++ class \<open>SegmentManager\<close> as functions on an explicit
  manager state. The conventions are:
  \<^item> A \<open>LogSegment*\<close> or \<open>LogSegment&\<close> is the number of the slot the segment was
    constructed in (\<open>segments[slot].construct(allocator, id, slot, ...)\<close>), so the member
    \<open>s.slot\<close> of the source is the pointer itself. Dereferencing a pointer whose slot is
    empty is the error \<open>InvalidSegment\<close>.
  \<^item> The arrays \<open>segments\<close> and \<open>states\<close> of \<open>Tub\<close>s are partial maps from slots.
  \<^item> The intrusive lists \<open>allSegments\<close> and \<open>segmentsByState[state]\<close> are lists of
    slots; \<open>push_back\<close> appends, \<open>front\<close> is the first element and \<open>erase\<close> removes
    the element.
  \<^item> \<open>assert\<close>, \<open>throw\<close> and the dereference of an empty slot end the operation with
    an error value (\<open>Inl\<close>); the manager state after such an end is not modelled.
  \<^item> A \<open>while\<close> loop that drains a list runs until the list is empty; it is a partial
    function, and not returning is the value \<open>None\<close>.
  \<^item> The calls into the replica manager do not touch the fields of the segment manager;
    they are recorded, in order, in \<open>replicaLog\<close>, and are taken to return.
  \<^item> The header \<open>SegmentManager.h\<close> is not part of the sources. The counters are taken
    as \<open>uint32_t\<close> (the type of the parameter of \<open>increaseSurvivorReserve\<close> and of the
    results of the accessors), segment identifiers and epochs as \<open>uint64_t\<close>, and
    \<open>logIteratorCount\<close> as an integer that is only incremented, decremented and compared
    with zero.
\<close>

subsection \<open>Data\<close>

datatype State =
    HEAD
  | CLEANING_INTO
  | CLEANABLE_PENDING_DIGEST
  | NEWLY_CLEANABLE
  | CLEANABLE
  | FREEABLE_PENDING_DIGEST_AND_REFERENCES
  | FREEABLE_PENDING_REFERENCES

datatype AllocationType = ALLOC_HEAD | ALLOC_EMERGENCY_HEAD | ALLOC_SURVIVOR

datatype error =
    SegmentManagerException
  | FatalError
  | AssertionFailure
  | InvalidSegment

text \<open>The two entries the manager appends: the segment header
  (log id, segment id, segment size, head segment id during cleaning) and the log digest
  (the list of segment ids, in the order of the calls of \<open>addSegmentId\<close>).\<close>

datatype LogEntry =
    LOG_ENTRY_TYPE_SEGHEADER "64 word" "64 word" "32 word" "64 word"
  | LOG_ENTRY_TYPE_LOGDIGEST "64 word list"

text \<open>Modelled from the spec: the class \<open>LogSegment\<close> is not part of the sources. The
  record has the members the manager reads and writes (\<open>id\<close>, \<open>isEmergencyHead\<close>,
  \<open>cleanedEpoch\<close>), the value \<open>getSegletsAllocated\<close> returns, the entries appended so
  far and the flag \<open>disableAppends\<close> sets.\<close>

record LogSegment =
  id :: "64 word"
  isEmergencyHead :: bool
  cleanedEpoch :: "64 word"
  segletsAllocated :: "32 word"
  entries :: "LogEntry list"
  appendsDisabled :: bool

text \<open>Modelled from the spec: the seglet allocator is not part of the sources. It reports
  the number of free segments, the segment size and the number of seglets of a full
  segment; constructing a segment takes one segment from it and destroying a segment
  gives one back.\<close>

record Allocator =
  freeSegmentCount :: "32 word"
  segmentSize :: "32 word"
  segletsPerSegment :: "32 word"

datatype ReplicaEvent =
    AllocateHead "64 word" "64 word option"
  | AllocateNonHead "64 word"
  | Close "64 word"
  | Sync "64 word" nat

record SegmentManager =
  logId :: "64 word"
  allocator :: Allocator
  maxSegments :: "32 word"
  numEmergencyHeads :: "32 word"
  numEmergencyHeadsAlloced :: "32 word"
  numSurvivorSegments :: "32 word"
  numSurvivorSegmentsAlloced :: "32 word"
  segments :: "nat \<rightharpoonup> LogSegment"
  states :: "nat \<rightharpoonup> State"
  freeSlots :: "nat list"
  nextSegmentId :: "64 word"
  idToSlotMap :: "64 word \<rightharpoonup> nat"
  allSegments :: "nat list"
  segmentsByState :: "State \<Rightarrow> nat list"
  logIteratorCount :: int
  currentEpoch :: "64 word"
  earliestOutstandingEpoch :: "64 word"
  replicaLog :: "ReplicaEvent list"

text \<open>\<open>Segment::INVALID_SEGMENT_ID\<close> is declared outside the sources; no theorem below
  depends on its value.\<close>

definition INVALID_SEGMENT_ID :: "64 word" where
  "INVALID_SEGMENT_ID = - 1"

subsection \<open>Construction\<close>

text \<open>The constructor. The member initialiser computes \<open>maxSegments\<close> as the cast to
  \<open>uint32_t\<close> of the \<open>double\<close> product of the free segment count and the disk expansion
  factor. Floating point arithmetic is not modelled: the value of that cast (\<open>maxSegs\<close>) and
  the outcome of the test \<open>diskExpansionFactor < 1.0\<close> (\<open>factorBelowOne\<close>) are arguments, so
  every value the source can compute is covered. For the factor 1.0 the product is exact and
  \<open>maxSegs\<close> is the free segment count. The registration of the memory with the transport
  manager is outside the model. The log identifier, the sizes of the allocator and the
  state of the epoch counters are arguments as well.\<close>

definition SegmentManager_new ::
  "64 word \<Rightarrow> Allocator \<Rightarrow> bool \<Rightarrow> 32 word \<Rightarrow> 64 word \<Rightarrow> 64 word \<Rightarrow> error + SegmentManager" where
  "SegmentManager_new lid alloc0 factorBelowOne maxSegs epoch0 earliest0 =
     (let numHeads = (2 :: 32 word)
      in if factorBelowOne then Inl SegmentManagerException
         else if freeSegmentCount alloc0 < numHeads then Inl SegmentManagerException
         else if \<not> (maxSegs \<ge> freeSegmentCount alloc0) then Inl AssertionFailure
         else Inr \<lparr> logId = lid,
                    allocator = alloc0,
                    maxSegments = maxSegs,
                    numEmergencyHeads = numHeads,
                    numEmergencyHeadsAlloced = 0,
                    numSurvivorSegments = 0,
                    numSurvivorSegmentsAlloced = 0,
                    segments = Map.empty,
                    states = Map.empty,
                    freeSlots = [0 ..< unat maxSegs],
                    nextSegmentId = 0,
                    idToSlotMap = Map.empty,
                    allSegments = [],
                    segmentsByState = (\<lambda>_. []),
                    logIteratorCount = 0,
                    currentEpoch = epoch0,
                    earliestOutstandingEpoch = earliest0,
                    replicaLog = [] \<rparr>)"

subsection \<open>Lists and state transitions\<close>

definition addToLists :: "nat \<Rightarrow> SegmentManager \<Rightarrow> error + SegmentManager" where
  "addToLists p s =
     (case states s p of
        None \<Rightarrow> Inl InvalidSegment
      | Some st \<Rightarrow>
          Inr (s\<lparr> allSegments := allSegments s @ [p],
                  segmentsByState := (segmentsByState s)(st := segmentsByState s st @ [p]) \<rparr>))"

definition removeFromLists :: "nat \<Rightarrow> SegmentManager \<Rightarrow> error + SegmentManager" where
  "removeFromLists p s =
     (case states s p of
        None \<Rightarrow> Inl InvalidSegment
      | Some st \<Rightarrow>
          Inr (s\<lparr> segmentsByState := (segmentsByState s)(st := remove1 p (segmentsByState s st)),
                  allSegments := remove1 p (allSegments s) \<rparr>))"

definition changeState :: "nat \<Rightarrow> State \<Rightarrow> SegmentManager \<Rightarrow> error + SegmentManager" where
  "changeState p newState s =
     (case removeFromLists p s of
        Inl e \<Rightarrow> Inl e
      | Inr s1 \<Rightarrow> addToLists p (s1\<lparr> states := (states s1)(p \<mapsto> newState) \<rparr>))"

definition getHeadSegment :: "SegmentManager \<Rightarrow> error + nat option" where
  "getHeadSegment s =
     (if length (segmentsByState s HEAD) = 0 then Inr None
      else if \<not> (length (segmentsByState s HEAD) = 1) then Inl AssertionFailure
      else Inr (Some (hd (segmentsByState s HEAD))))"

subsection \<open>Admission\<close>

text \<open>The reserves are computed in \<open>uint32_t\<close> and widened to \<open>size_t\<close>; their sum and
  the comparisons with the free segment count are on the widened values.\<close>

definition mayAlloc :: "AllocationType \<Rightarrow> SegmentManager \<Rightarrow> error + bool" where
  "mayAlloc type s =
     (if \<not> (numEmergencyHeadsAlloced s \<le> numEmergencyHeads s) then Inl AssertionFailure
      else if \<not> (numSurvivorSegmentsAlloced s \<le> numSurvivorSegments s) then Inl AssertionFailure
      else
        let emergencyHeadsReserved = unat (numEmergencyHeads s - numEmergencyHeadsAlloced s);
            survivorSegmentsReserved = unat (numSurvivorSegments s - numSurvivorSegmentsAlloced s);
            totalReserved = emergencyHeadsReserved + survivorSegmentsReserved;
            free = unat (freeSegmentCount (allocator s))
        in if \<not> (free \<ge> totalReserved) then Inl AssertionFailure
           else if type = ALLOC_EMERGENCY_HEAD then
             (if \<not> (emergencyHeadsReserved > 0) then Inl AssertionFailure
              else if \<not> (length (freeSlots s) > 0) then Inl AssertionFailure
              else if \<not> (free > 0) then Inl AssertionFailure
              else Inr True)
           else if type = ALLOC_SURVIVOR then
             (if survivorSegmentsReserved = 0 then Inr False
              else if \<not> (length (freeSlots s) > 0) then Inl AssertionFailure
              else if \<not> (free > 0) then Inl AssertionFailure
              else Inr True)
           else if free \<le> totalReserved then Inr False
           else if \<not> (length (freeSlots s) > 0) then Inl AssertionFailure
           else Inr True)"

subsection \<open>Freeing\<close>

definition free :: "nat \<Rightarrow> SegmentManager \<Rightarrow> error + SegmentManager" where
  "free p s =
     (case segments s p of
        None \<Rightarrow> Inl InvalidSegment
      | Some seg \<Rightarrow>
          let s1 = s\<lparr> freeSlots := freeSlots s @ [p],
                      idToSlotMap := (idToSlotMap s)(id seg := None) \<rparr>
          in (case removeFromLists p s1 of
                Inl e \<Rightarrow> Inl e
              | Inr s2 \<Rightarrow>
                  let s3 = s2\<lparr> states := (states s2)(p := None),
                               segments := (segments s2)(p := None),
                               allocator := (allocator s2)
                                 \<lparr> freeSegmentCount := freeSegmentCount (allocator s2) + 1 \<rparr> \<rparr>
                  in if isEmergencyHead seg then
                       Inr (s3\<lparr> numEmergencyHeadsAlloced := numEmergencyHeadsAlloced s3 - 1 \<rparr>)
                     else if numSurvivorSegmentsAlloced s3 > 0 then
                       Inr (s3\<lparr> numSurvivorSegmentsAlloced := numSurvivorSegmentsAlloced s3 - 1 \<rparr>)
                     else Inr s3))"

text \<open>The scan walks the list as it was when the scan began: the iterator is advanced
  before the segment it pointed to is freed, and freeing erases only that segment.\<close>

fun freeUnreferencedSegments_loop ::
  "64 word \<Rightarrow> nat list \<Rightarrow> SegmentManager \<Rightarrow> error + SegmentManager" where
  "freeUnreferencedSegments_loop earliestEpoch [] s = Inr s"
| "freeUnreferencedSegments_loop earliestEpoch (p # ps) s =
     (case segments s p of
        None \<Rightarrow> Inl InvalidSegment
      | Some seg \<Rightarrow>
          if cleanedEpoch seg < earliestEpoch then
            (case free p s of
               Inl e \<Rightarrow> Inl e
             | Inr s1 \<Rightarrow> freeUnreferencedSegments_loop earliestEpoch ps s1)
          else freeUnreferencedSegments_loop earliestEpoch ps s)"

definition freeUnreferencedSegments :: "SegmentManager \<Rightarrow> error + SegmentManager" where
  "freeUnreferencedSegments s =
     (if segmentsByState s FREEABLE_PENDING_REFERENCES = [] then Inr s
      else freeUnreferencedSegments_loop (earliestOutstandingEpoch s)
             (segmentsByState s FREEABLE_PENDING_REFERENCES) s)"

subsection \<open>Allocation\<close>

text \<open>The new segment is constructed empty, with the seglets of a full segment and
  cleaned epoch zero. \<open>freeSlots.back()\<close> is read after \<open>mayAlloc\<close> has asserted that
  the pool is not empty.\<close>

definition alloc :: "AllocationType \<Rightarrow> SegmentManager \<Rightarrow> error + (nat option \<times> SegmentManager)" where
  "alloc type s =
     (case freeUnreferencedSegments s of
        Inl e \<Rightarrow> Inl e
      | Inr s1 \<Rightarrow>
         (case mayAlloc type s1 of
            Inl e \<Rightarrow> Inl e
          | Inr False \<Rightarrow> Inr (None, s1)
          | Inr True \<Rightarrow>
              let newId = nextSegmentId s1;
                  slot = last (freeSlots s1)
              in if segments s1 slot \<noteq> None then Inl AssertionFailure
                 else
                   let state = (if type = ALLOC_SURVIVOR then CLEANING_INTO else HEAD);
                       seg = \<lparr> id = newId,
                               isEmergencyHead = (type = ALLOC_EMERGENCY_HEAD),
                               cleanedEpoch = 0,
                               segletsAllocated = segletsPerSegment (allocator s1),
                               entries = [],
                               appendsDisabled = False \<rparr>;
                       s2 = s1\<lparr> nextSegmentId := newId + 1,
                                freeSlots := butlast (freeSlots s1),
                                segments := (segments s1)(slot \<mapsto> seg),
                                allocator := (allocator s1)
                                  \<lparr> freeSegmentCount := freeSegmentCount (allocator s1) - 1 \<rparr>,
                                states := (states s1)(slot \<mapsto> state),
                                idToSlotMap := (idToSlotMap s1)(newId \<mapsto> slot) \<rparr>
                   in (case addToLists slot s2 of
                         Inl e \<Rightarrow> Inl e
                       | Inr s3 \<Rightarrow>
                           if type = ALLOC_SURVIVOR then
                             Inr (Some slot, s3\<lparr> numSurvivorSegmentsAlloced :=
                                                   numSurvivorSegmentsAlloced s3 + 1 \<rparr>)
                           else if type = ALLOC_EMERGENCY_HEAD then
                             Inr (Some slot, s3\<lparr> numEmergencyHeadsAlloced :=
                                                   numEmergencyHeadsAlloced s3 + 1 \<rparr>)
                           else Inr (Some slot, s3))))"

subsection \<open>Headers and digests\<close>

text \<open>Modelled from the spec: \<open>LogSegment::append\<close> is not part of the sources. It
  returns whether the entry was appended. Whether an entry fits into a segment is the
  parameter \<open>fits\<close> of the operations that append; nothing fits once appends are
  disabled.\<close>

definition LogSegment_append ::
  "(LogSegment \<Rightarrow> LogEntry \<Rightarrow> bool) \<Rightarrow> LogEntry \<Rightarrow> LogSegment \<Rightarrow> LogSegment option" where
  "LogSegment_append fits e seg =
     (if \<not> appendsDisabled seg \<and> fits seg e then Some (seg\<lparr> entries := entries seg @ [e] \<rparr>)
      else None)"

definition writeHeader ::
  "(LogSegment \<Rightarrow> LogEntry \<Rightarrow> bool) \<Rightarrow> nat \<Rightarrow> 64 word \<Rightarrow> SegmentManager \<Rightarrow> error + SegmentManager" where
  "writeHeader fits segment headSegmentIdDuringCleaning s =
     (case segments s segment of
        None \<Rightarrow> Inl InvalidSegment
      | Some seg \<Rightarrow>
          let header = LOG_ENTRY_TYPE_SEGHEADER (logId s) (id seg)
                         (segmentSize (allocator s)) headSegmentIdDuringCleaning
          in (case LogSegment_append fits header seg of
                None \<Rightarrow> Inl FatalError
              | Some seg' \<Rightarrow> Inr (s\<lparr> segments := (segments s)(segment \<mapsto> seg') \<rparr>)))"

text \<open>The loops of the form
  \<^verbatim>\<open>while (!list.empty()) { LogSegment& s = list.front(); ...; changeState(s, newState); }\<close>
  over the list of state \<open>src\<close>. The function \<open>f\<close> is what the body does with the
  segment before the transition (\<open>segletsUsed += s.getSegletsAllocated()\<close>,
  \<open>out.push_back(&s)\<close>, or nothing).\<close>

partial_function (option) drain ::
  "State \<Rightarrow> State \<Rightarrow> (nat \<Rightarrow> LogSegment \<Rightarrow> 'a \<Rightarrow> 'a) \<Rightarrow> 'a \<Rightarrow> SegmentManager
     \<Rightarrow> (error + 'a \<times> SegmentManager) option" where
  "drain src newState f acc s =
     (case segmentsByState s src of
        [] \<Rightarrow> Some (Inr (acc, s))
      | p # _ \<Rightarrow>
          (case segments s p of
             None \<Rightarrow> Some (Inl InvalidSegment)
           | Some seg \<Rightarrow>
               (case changeState p newState s of
                  Inl e \<Rightarrow> Some (Inl e)
                | Inr s1 \<Rightarrow> drain src newState f (f p seg acc) s1)))"

text \<open>The identifiers of the segments on a list, in list order
  (\<^verbatim>\<open>foreach (LogSegment& s, list) digest.addSegmentId(s.id)\<close>).\<close>

definition segmentIds :: "SegmentManager \<Rightarrow> nat list \<Rightarrow> 64 word list" where
  "segmentIds s ps = List.map_filter (\<lambda>p. map_option id (segments s p)) ps"

definition writeDigest ::
  "(LogSegment \<Rightarrow> LogEntry \<Rightarrow> bool) \<Rightarrow> nat \<Rightarrow> nat option \<Rightarrow> SegmentManager
     \<Rightarrow> (error + SegmentManager) option" where
  "writeDigest fits newHead prevHead s =
     (case (if logIteratorCount s = 0
            then drain CLEANABLE_PENDING_DIGEST NEWLY_CLEANABLE (\<lambda>p seg u. u) () s
            else Some (Inr ((), s))) of
        None \<Rightarrow> None
      | Some (Inl e) \<Rightarrow> Some (Inl e)
      | Some (Inr (_, s1)) \<Rightarrow>
          let digest = segmentIds s1 (segmentsByState s1 CLEANABLE)
                       @ segmentIds s1 (segmentsByState s1 NEWLY_CLEANABLE)
                       @ (case prevHead of None \<Rightarrow> [] | Some q \<Rightarrow> segmentIds s1 [q])
                       @ segmentIds s1 [newHead]
          in (case (if logIteratorCount s1 = 0
                    then (case drain FREEABLE_PENDING_DIGEST_AND_REFERENCES
                                 FREEABLE_PENDING_REFERENCES (\<lambda>p seg u. u) () s1 of
                            None \<Rightarrow> None
                          | Some (Inl e) \<Rightarrow> Some (Inl e)
                          | Some (Inr (_, s2)) \<Rightarrow> Some (Inr (digest, s2)))
                    else Some (Inr (digest @ segmentIds s1 (segmentsByState s1
                                      FREEABLE_PENDING_DIGEST_AND_REFERENCES), s1))) of
                None \<Rightarrow> None
              | Some (Inl e) \<Rightarrow> Some (Inl e)
              | Some (Inr (digest', s2)) \<Rightarrow>
                  (case segments s2 newHead of
                     None \<Rightarrow> Some (Inl InvalidSegment)
                   | Some seg \<Rightarrow>
                       (case LogSegment_append fits (LOG_ENTRY_TYPE_LOGDIGEST digest') seg of
                          None \<Rightarrow> Some (Inl FatalError)
                        | Some seg' \<Rightarrow>
                            Some (Inr (s2\<lparr> segments := (segments s2)(newHead \<mapsto> seg') \<rparr>))))))"

subsection \<open>Head and survivor allocation\<close>

text \<open>Lines 144 to 183 of \<open>allocHead\<close>: what is done once the new head is allocated.\<close>

definition allocHead_install ::
  "(LogSegment \<Rightarrow> LogEntry \<Rightarrow> bool) \<Rightarrow> nat option \<Rightarrow> nat \<Rightarrow> SegmentManager
     \<Rightarrow> (error + nat option \<times> SegmentManager) option" where
  "allocHead_install fits prevHead newHead s =
     (case writeHeader fits newHead INVALID_SEGMENT_ID s of
        Inl e \<Rightarrow> Some (Inl e)
      | Inr s1 \<Rightarrow>
         (case (case prevHead of
                  None \<Rightarrow> Inr None
                | Some q \<Rightarrow> (case segments s1 q of
                               None \<Rightarrow> Inl InvalidSegment
                             | Some prev \<Rightarrow> Inr (Some (q, prev)))) of
            Inl e \<Rightarrow> Some (Inl e)
          | Inr prevSeg \<Rightarrow>
             (case writeDigest fits newHead
                     (case prevSeg of
                        None \<Rightarrow> None
                      | Some (q, prev) \<Rightarrow> if \<not> isEmergencyHead prev then Some q else None) s1 of
                None \<Rightarrow> None
              | Some (Inl e) \<Rightarrow> Some (Inl e)
              | Some (Inr s2) \<Rightarrow>
                 (case segments s2 newHead of
                    None \<Rightarrow> Some (Inl InvalidSegment)
                  | Some new \<Rightarrow>
                      let s3 = (if isEmergencyHead new
                                then s2\<lparr> segments := (segments s2)
                                          (newHead \<mapsto> new\<lparr> appendsDisabled := True \<rparr>) \<rparr>
                                else s2);
                          s4 = s3\<lparr> replicaLog := replicaLog s3 @
                                     [AllocateHead (id new) (map_option (\<lambda>(q, prev). id prev) prevSeg)] \<rparr>
                      in (case prevSeg of
                            None \<Rightarrow> Some (Inr (Some newHead, s4))
                          | Some (q, prev) \<Rightarrow>
                              let s5 = s4\<lparr> replicaLog := replicaLog s4 @
                                           [Close (id prev), Sync (id prev) (length (entries prev))] \<rparr>
                              in (case (if isEmergencyHead prev then free q s5
                                        else changeState q NEWLY_CLEANABLE s5) of
                                    Inl e \<Rightarrow> Some (Inl e)
                                  | Inr s6 \<Rightarrow> Some (Inr (Some newHead, s6))))))))"

text \<open>If the call of \<open>alloc(ALLOC_EMERGENCY_HEAD)\<close> returned \<open>NULL\<close>, the source would
  dereference it in \<open>writeHeader\<close>.\<close>

definition allocHead ::
  "(LogSegment \<Rightarrow> LogEntry \<Rightarrow> bool) \<Rightarrow> bool \<Rightarrow> SegmentManager
     \<Rightarrow> (error + nat option \<times> SegmentManager) option" where
  "allocHead fits mustNotFail s =
     (case getHeadSegment s of
        Inl e \<Rightarrow> Some (Inl e)
      | Inr prevHead \<Rightarrow>
         (case alloc ALLOC_HEAD s of
            Inl e \<Rightarrow> Some (Inl e)
          | Inr (Some newHead, s1) \<Rightarrow> allocHead_install fits prevHead newHead s1
          | Inr (None, s1) \<Rightarrow>
              if mustNotFail \<or>
                 length (segmentsByState s1 FREEABLE_PENDING_DIGEST_AND_REFERENCES) > 0
              then (case alloc ALLOC_EMERGENCY_HEAD s1 of
                      Inl e \<Rightarrow> Some (Inl e)
                    | Inr (None, s2) \<Rightarrow> Some (Inl InvalidSegment)
                    | Inr (Some newHead, s2) \<Rightarrow> allocHead_install fits prevHead newHead s2)
              else Some (Inr (None, s1))))"

definition allocSurvivor ::
  "(LogSegment \<Rightarrow> LogEntry \<Rightarrow> bool) \<Rightarrow> 64 word \<Rightarrow> SegmentManager
     \<Rightarrow> error + nat option \<times> SegmentManager" where
  "allocSurvivor fits headSegmentIdDuringCleaning s =
     (case alloc ALLOC_SURVIVOR s of
        Inl e \<Rightarrow> Inl e
      | Inr (None, s1) \<Rightarrow> Inr (None, s1)
      | Inr (Some p, s1) \<Rightarrow>
          (case writeHeader fits p headSegmentIdDuringCleaning s1 of
             Inl e \<Rightarrow> Inl e
           | Inr s2 \<Rightarrow>
               (case segments s2 p of
                  None \<Rightarrow> Inl InvalidSegment
                | Some seg \<Rightarrow>
                    Inr (Some p, s2\<lparr> replicaLog := replicaLog s2 @ [AllocateNonHead (id seg)] \<rparr>))))"

subsection \<open>Cleaning and iteration\<close>

text \<open>Modelled from the spec: \<open>ServerRpcPool\<close> is not part of the sources.
  \<open>incrementCurrentEpoch\<close> increments the global epoch and returns the value after the
  increment; \<open>getEarliestOutstandingEpoch\<close> reads a value the RPC layer maintains.\<close>

definition incrementCurrentEpoch :: "SegmentManager \<Rightarrow> 64 word \<times> SegmentManager" where
  "incrementCurrentEpoch s = (currentEpoch s + 1, s\<lparr> currentEpoch := currentEpoch s + 1 \<rparr>)"

fun cleaningComplete_clean ::
  "64 word \<Rightarrow> nat list \<Rightarrow> 32 word \<Rightarrow> SegmentManager \<Rightarrow> error + 32 word \<times> SegmentManager" where
  "cleaningComplete_clean epoch [] segletsFreed s = Inr (segletsFreed, s)"
| "cleaningComplete_clean epoch (p # ps) segletsFreed s =
     (case segments s p of
        None \<Rightarrow> Inl InvalidSegment
      | Some seg \<Rightarrow>
          let s1 = s\<lparr> segments := (segments s)(p \<mapsto> seg\<lparr> cleanedEpoch := epoch \<rparr>) \<rparr>
          in (case changeState p FREEABLE_PENDING_DIGEST_AND_REFERENCES s1 of
                Inl e \<Rightarrow> Inl e
              | Inr s2 \<Rightarrow>
                  cleaningComplete_clean epoch ps (segletsFreed + segletsAllocated seg) s2))"

definition cleaningComplete :: "nat list \<Rightarrow> SegmentManager \<Rightarrow> (error + SegmentManager) option" where
  "cleaningComplete clean s =
     (case drain CLEANING_INTO CLEANABLE_PENDING_DIGEST
             (\<lambda>p seg segletsUsed. segletsUsed + segletsAllocated seg) (0 :: 32 word) s of
        None \<Rightarrow> None
      | Some (Inl e) \<Rightarrow> Some (Inl e)
      | Some (Inr (segletsUsed, s1)) \<Rightarrow>
          (case incrementCurrentEpoch s1 of
             (next, s2) \<Rightarrow>
               let epoch = next - 1
               in (case cleaningComplete_clean epoch clean 0 s2 of
                     Inl e \<Rightarrow> Some (Inl e)
                   | Inr (segletsFreed, s3) \<Rightarrow>
                       if \<not> (segletsUsed \<le> segletsFreed) then Some (Inl AssertionFailure)
                       else Some (Inr s3))))"

definition cleanableSegments ::
  "nat list \<Rightarrow> SegmentManager \<Rightarrow> (error + nat list \<times> SegmentManager) option" where
  "cleanableSegments out s = drain NEWLY_CLEANABLE CLEANABLE (\<lambda>p seg out. out @ [p]) out s"

definition logIteratorCreated :: "SegmentManager \<Rightarrow> SegmentManager" where
  "logIteratorCreated s = s\<lparr> logIteratorCount := logIteratorCount s + 1 \<rparr>"

definition logIteratorDestroyed :: "SegmentManager \<Rightarrow> SegmentManager" where
  "logIteratorDestroyed s = s\<lparr> logIteratorCount := logIteratorCount s - 1 \<rparr>"

definition increaseSurvivorReserve :: "32 word \<Rightarrow> SegmentManager \<Rightarrow> bool \<times> SegmentManager" where
  "increaseSurvivorReserve numSegments s =
     (if numSegments < numSurvivorSegments s then (False, s)
      else if numSegments > freeSegmentCount (allocator s) - numEmergencyHeads s then (False, s)
      else (True, s\<lparr> numSurvivorSegments := numSegments \<rparr>))"

section \<open>Well-formed manager states\<close>

text \<open>The predicates and closed forms below are used to state and prove the theorems;
  they are not part of the program.\<close>

definition wellFormed :: "SegmentManager \<Rightarrow> bool" where
  "wellFormed s \<longleftrightarrow>
     (\<forall>st. distinct (segmentsByState s st)) \<and>
     (\<forall>st p. p \<in> set (segmentsByState s st) \<longleftrightarrow> states s p = Some st) \<and>
     distinct (allSegments s) \<and>
     (\<forall>p. p \<in> set (allSegments s) \<longleftrightarrow> states s p \<noteq> None) \<and>
     (\<forall>p. segments s p = None \<longleftrightarrow> states s p = None) \<and>
     distinct (freeSlots s) \<and>
     (\<forall>p \<in> set (freeSlots s). segments s p = None)"

definition transitioned :: "nat \<Rightarrow> State \<Rightarrow> State \<Rightarrow> SegmentManager \<Rightarrow> SegmentManager" where
  "transitioned p old new s =
     s\<lparr> segmentsByState :=
          ((segmentsByState s)(old := remove1 p (segmentsByState s old)))
            (new := ((segmentsByState s)(old := remove1 p (segmentsByState s old))) new @ [p]),
        allSegments := remove1 p (allSegments s) @ [p],
        states := (states s)(p \<mapsto> new) \<rparr>"

definition moved :: "State \<Rightarrow> State \<Rightarrow> SegmentManager \<Rightarrow> SegmentManager" where
  "moved src dst s =
     s\<lparr> segmentsByState :=
          (segmentsByState s)(src := [], dst := segmentsByState s dst @ segmentsByState s src),
        allSegments :=
          filter (\<lambda>p. p \<notin> set (segmentsByState s src)) (allSegments s) @ segmentsByState s src,
        states := (\<lambda>p. if p \<in> set (segmentsByState s src) then Some dst else states s p) \<rparr>"

definition released :: "nat list \<Rightarrow> SegmentManager \<Rightarrow> SegmentManager \<Rightarrow> bool" where
  "released F s s' \<longleftrightarrow>
     segments s' = (\<lambda>p. if p \<in> set F then None else segments s p) \<and>
     states s' = (\<lambda>p. if p \<in> set F then None else states s p) \<and>
     freeSlots s' = freeSlots s @ F \<and>
     idToSlotMap s' =
       (\<lambda>i. if i \<in> set (segmentIds s F) then None else idToSlotMap s i) \<and>
     segmentsByState s' = (\<lambda>st. filter (\<lambda>p. p \<notin> set F) (segmentsByState s st)) \<and>
     allSegments s' = filter (\<lambda>p. p \<notin> set F) (allSegments s) \<and>
     logId s' = logId s \<and> maxSegments s' = maxSegments s \<and>
     numEmergencyHeads s' = numEmergencyHeads s \<and>
     numSurvivorSegments s' = numSurvivorSegments s \<and>
     nextSegmentId s' = nextSegmentId s \<and>
     logIteratorCount s' = logIteratorCount s \<and>
     currentEpoch s' = currentEpoch s \<and>
     earliestOutstandingEpoch s' = earliestOutstandingEpoch s \<and>
     replicaLog s' = replicaLog s \<and>
     segmentSize (allocator s') = segmentSize (allocator s) \<and>
     segletsPerSegment (allocator s') = segletsPerSegment (allocator s)"

definition unreferenced :: "64 word \<Rightarrow> SegmentManager \<Rightarrow> nat \<Rightarrow> bool" where
  "unreferenced e s p \<longleftrightarrow> (case segments s p of None \<Rightarrow> False | Some seg \<Rightarrow> cleanedEpoch seg < e)"

definition born :: "AllocationType \<Rightarrow> SegmentManager \<Rightarrow> SegmentManager" where
  "born type s =
     (let p = last (freeSlots s);
          st = (if type = ALLOC_SURVIVOR then CLEANING_INTO else HEAD)
      in s\<lparr> nextSegmentId := nextSegmentId s + 1,
              freeSlots := butlast (freeSlots s),
              segments := (segments s)(p \<mapsto>
                 \<lparr> id = nextSegmentId s,
                    isEmergencyHead = (type = ALLOC_EMERGENCY_HEAD),
                    cleanedEpoch = 0,
                    segletsAllocated = segletsPerSegment (allocator s),
                    entries = [],
                    appendsDisabled = False \<rparr>),
              allocator := (allocator s)\<lparr> freeSegmentCount := freeSegmentCount (allocator s) - 1 \<rparr>,
              states := (states s)(p \<mapsto> st),
              idToSlotMap := (idToSlotMap s)(nextSegmentId s \<mapsto> p),
              allSegments := allSegments s @ [p],
              segmentsByState := (segmentsByState s)(st := segmentsByState s st @ [p]),
              numSurvivorSegmentsAlloced :=
                (if type = ALLOC_SURVIVOR then numSurvivorSegmentsAlloced s + 1
                 else numSurvivorSegmentsAlloced s),
              numEmergencyHeadsAlloced :=
                (if type = ALLOC_EMERGENCY_HEAD then numEmergencyHeadsAlloced s + 1
                 else numEmergencyHeadsAlloced s) \<rparr>)"

definition digestIds :: "SegmentManager \<Rightarrow> nat \<Rightarrow> nat option \<Rightarrow> 64 word list" where
  "digestIds s newHead prevHead =
     segmentIds s (segmentsByState s CLEANABLE)
     @ segmentIds s (segmentsByState s NEWLY_CLEANABLE)
     @ (if logIteratorCount s = 0 then segmentIds s (segmentsByState s CLEANABLE_PENDING_DIGEST) else [])
     @ (case prevHead of None \<Rightarrow> [] | Some q \<Rightarrow> segmentIds s [q])
     @ segmentIds s [newHead]
     @ (if logIteratorCount s = 0 then []
        else segmentIds s (segmentsByState s FREEABLE_PENDING_DIGEST_AND_REFERENCES))"

definition digested :: "SegmentManager \<Rightarrow> SegmentManager" where
  "digested s =
     (if logIteratorCount s = 0
      then moved FREEABLE_PENDING_DIGEST_AND_REFERENCES FREEABLE_PENDING_REFERENCES
             (moved CLEANABLE_PENDING_DIGEST NEWLY_CLEANABLE s)
      else s)"

definition written :: "nat \<Rightarrow> nat option \<Rightarrow> SegmentManager \<Rightarrow> SegmentManager" where
  "written n prev s =
     (let seg0 = the (segments s n);
          prevSeg = (case prev of None \<Rightarrow> None | Some q \<Rightarrow> segments s q);
          prevD = (case prev of
                     None \<Rightarrow> None
                   | Some q \<Rightarrow> (case segments s q of
                                  None \<Rightarrow> None
                                | Some sq \<Rightarrow> if isEmergencyHead sq then None else Some q));
          seg2 = seg0\<lparr> entries := entries seg0 @
                         [LOG_ENTRY_TYPE_SEGHEADER (logId s) (id seg0) (segmentSize (allocator s))
                            INVALID_SEGMENT_ID,
                          LOG_ENTRY_TYPE_LOGDIGEST (digestIds s n prevD)] \<rparr>;
          new = (if isEmergencyHead seg0 then seg2\<lparr> appendsDisabled := True \<rparr> else seg2)
      in (digested s)\<lparr> segments := (segments s)(n \<mapsto> new),
                        replicaLog := replicaLog s @
                          [AllocateHead (id seg0) (map_option id prevSeg)] @
                          (case prevSeg of
                             None \<Rightarrow> []
                           | Some sq \<Rightarrow> [Close (id sq), Sync (id sq) (length (entries sq))]) \<rparr>)"

definition headOf :: "SegmentManager \<Rightarrow> nat option" where
  "headOf s = (case segmentsByState s HEAD of [] \<Rightarrow> None | h # _ \<Rightarrow> Some h)"

definition idsOk :: "SegmentManager \<Rightarrow> bool" where
  "idsOk s \<longleftrightarrow>
     (\<forall>p q sp sq. segments s p = Some sp \<and> segments s q = Some sq \<and> id sp = id sq \<longrightarrow> p = q) \<and>
     (\<forall>p sp. segments s p = Some sp \<longrightarrow> id sp < nextSegmentId s)"

text \<open>The previous head as \<open>allocHead\<close> passes it to \<open>writeDigest\<close>.\<close>

definition digestPrev :: "SegmentManager \<Rightarrow> nat option" where
  "digestPrev s =
     (case headOf s of
        None \<Rightarrow> None
      | Some q \<Rightarrow> (case segments s q of
                     None \<Rightarrow> None
                   | Some sq \<Rightarrow> if isEmergencyHead sq then None else Some q))"

text \<open>The digest the inclusion rule prescribes for a head allocated in state \<open>s\<close>.\<close>

definition digestOf :: "SegmentManager \<Rightarrow> 64 word list" where
  "digestOf s =
     segmentIds s (segmentsByState s CLEANABLE)
     @ segmentIds s (segmentsByState s NEWLY_CLEANABLE)
     @ (if logIteratorCount s = 0 then segmentIds s (segmentsByState s CLEANABLE_PENDING_DIGEST) else [])
     @ (case digestPrev s of None \<Rightarrow> [] | Some q \<Rightarrow> segmentIds s [q])
     @ [nextSegmentId s]
     @ (if logIteratorCount s = 0 then []
        else segmentIds s (segmentsByState s FREEABLE_PENDING_DIGEST_AND_REFERENCES))"



text \<open>The invariant behind the uniqueness of the head: the bookkeeping is well formed
  and the \<open>HEAD\<close> list holds at most one segment. It is established by the constructor
  and preserved by every public operation that returns.\<close>

definition headInvariant :: "SegmentManager \<Rightarrow> bool" where
  "headInvariant s \<longleftrightarrow> wellFormed s \<and> length (segmentsByState s HEAD) \<le> 1"
subsection \<open>Calls and reachable states\<close>

text \<open>The public operations that change the manager, as calls; \<open>RpcEpochs\<close> is the RPC
  layer moving the current epoch and the earliest outstanding epoch. \<open>call\<close> gives the
  state after a call that returns; a call that ends with an error or does not return has
  no next state.\<close>

datatype Call =
    AllocHead bool
  | AllocSurvivor "64 word"
  | CleaningComplete "nat list"
  | CleanableSegments "nat list"
  | LogIteratorCreated
  | LogIteratorDestroyed
  | IncreaseSurvivorReserve "32 word"
  | RpcEpochs "64 word" "64 word"

fun call :: "(LogSegment \<Rightarrow> LogEntry \<Rightarrow> bool) \<Rightarrow> Call \<Rightarrow> SegmentManager \<Rightarrow> SegmentManager option" where
  "call fits (AllocHead mustNotFail) s =
     (case allocHead fits mustNotFail s of Some (Inr (_, s')) \<Rightarrow> Some s' | _ \<Rightarrow> None)"
| "call fits (AllocSurvivor h) s =
     (case allocSurvivor fits h s of Inr (_, s') \<Rightarrow> Some s' | _ \<Rightarrow> None)"
| "call fits (CleaningComplete clean) s =
     (case cleaningComplete clean s of Some (Inr s') \<Rightarrow> Some s' | _ \<Rightarrow> None)"
| "call fits (CleanableSegments out) s =
     (case cleanableSegments out s of Some (Inr (_, s')) \<Rightarrow> Some s' | _ \<Rightarrow> None)"
| "call fits LogIteratorCreated s = Some (logIteratorCreated s)"
| "call fits LogIteratorDestroyed s = Some (logIteratorDestroyed s)"
| "call fits (IncreaseSurvivorReserve n) s = Some (snd (increaseSurvivorReserve n s))"
| "call fits (RpcEpochs current earliest) s =
     Some (s\<lparr> currentEpoch := current, earliestOutstandingEpoch := earliest \<rparr>)"

fun run :: "(LogSegment \<Rightarrow> LogEntry \<Rightarrow> bool) \<Rightarrow> Call list \<Rightarrow> SegmentManager \<Rightarrow> SegmentManager option" where
  "run fits [] s = Some s"
| "run fits (c # cs) s = (case call fits c s of None \<Rightarrow> None | Some s' \<Rightarrow> run fits cs s')"

inductive reachable :: "SegmentManager \<Rightarrow> bool" where
  constructed: "SegmentManager_new lid a below maxSegs e0 e1 = Inr s \<Longrightarrow> reachable s"
| called: "reachable s \<Longrightarrow> call fits c s = Some s' \<Longrightarrow> reachable s'"

subsection \<open>Example states\<close>

definition anyFits :: "LogSegment \<Rightarrow> LogEntry \<Rightarrow> bool" where
  "anyFits = (\<lambda>_ _. True)"

definition sixFree :: Allocator where
  "sixFree = \<lparr> freeSegmentCount = 6, segmentSize = 1024, segletsPerSegment = 4 \<rparr>"

definition twoFree :: Allocator where
  "twoFree = \<lparr> freeSegmentCount = 2, segmentSize = 1024, segletsPerSegment = 4 \<rparr>"

text \<open>A manager over six segments with a survivor reserve of two, after two heads
  (ids 0 and 2, slots 5 and 3) and one survivor (id 1, slot 4) were allocated and the first
  head was cleaned into the survivor.\<close>

definition cleaningPass :: "Call list" where
  "cleaningPass = [IncreaseSurvivorReserve 2, AllocHead False, AllocSurvivor 0, AllocHead False,
                   CleanableSegments [], CleaningComplete [5]]"

definition afterCleaning :: SegmentManager where
  "afterCleaning =
   \<lparr> logId = 7,
      allocator = \<lparr> freeSegmentCount = 3, segmentSize = 1024, segletsPerSegment = 4 \<rparr>,
      maxSegments = 6, numEmergencyHeads = 2, numEmergencyHeadsAlloced = 0,
      numSurvivorSegments = 2, numSurvivorSegmentsAlloced = 1,
      segments = [
        5 \<mapsto> \<lparr> id = 0, isEmergencyHead = False, cleanedEpoch = 1, segletsAllocated = 4,
               entries = [LOG_ENTRY_TYPE_SEGHEADER 7 0 1024 (- 1), LOG_ENTRY_TYPE_LOGDIGEST [0]],
               appendsDisabled = False \<rparr>,
        4 \<mapsto> \<lparr> id = 1, isEmergencyHead = False, cleanedEpoch = 0, segletsAllocated = 4,
               entries = [LOG_ENTRY_TYPE_SEGHEADER 7 1 1024 0], appendsDisabled = False \<rparr>,
        3 \<mapsto> \<lparr> id = 2, isEmergencyHead = False, cleanedEpoch = 0, segletsAllocated = 4,
               entries = [LOG_ENTRY_TYPE_SEGHEADER 7 2 1024 (- 1), LOG_ENTRY_TYPE_LOGDIGEST [0, 2]],
               appendsDisabled = False \<rparr>],
      states = [3 \<mapsto> HEAD, 4 \<mapsto> CLEANABLE_PENDING_DIGEST,
                5 \<mapsto> FREEABLE_PENDING_DIGEST_AND_REFERENCES],
      freeSlots = [0, 1, 2], nextSegmentId = 3,
      idToSlotMap = [0 \<mapsto> 5, 1 \<mapsto> 4, 2 \<mapsto> 3],
      allSegments = [3, 4, 5],
      segmentsByState = (\<lambda>_. [])(HEAD := [3], CLEANABLE_PENDING_DIGEST := [4],
                                   FREEABLE_PENDING_DIGEST_AND_REFERENCES := [5]),
      logIteratorCount = 0, currentEpoch = 2, earliestOutstandingEpoch = 1,
      replicaLog = [AllocateHead 0 None, AllocateNonHead 1, AllocateHead 2 (Some 0),
                    Close 0, Sync 0 2] \<rparr>"

text \<open>The same manager after the next head (an emergency head, id 3, slot 2) was
  allocated with no iterator active, an iterator was then created, and the earliest
  outstanding epoch moved to 5. The cleaned segment (slot 5, cleaned epoch 1) is in
  \<open>FREEABLE_PENDING_REFERENCES\<close>.\<close>

definition iteratorCreated :: "Call list" where
  "iteratorCreated = [AllocHead False, LogIteratorCreated, RpcEpochs 2 5]"

definition withIterator :: SegmentManager where
  "withIterator =
   \<lparr> logId = 7,
      allocator = \<lparr> freeSegmentCount = 2, segmentSize = 1024, segletsPerSegment = 4 \<rparr>,
      maxSegments = 6, numEmergencyHeads = 2, numEmergencyHeadsAlloced = 1,
      numSurvivorSegments = 2, numSurvivorSegmentsAlloced = 1,
      segments = [
        5 \<mapsto> \<lparr> id = 0, isEmergencyHead = False, cleanedEpoch = 1, segletsAllocated = 4,
               entries = [LOG_ENTRY_TYPE_SEGHEADER 7 0 1024 (- 1), LOG_ENTRY_TYPE_LOGDIGEST [0]],
               appendsDisabled = False \<rparr>,
        4 \<mapsto> \<lparr> id = 1, isEmergencyHead = False, cleanedEpoch = 0, segletsAllocated = 4,
               entries = [LOG_ENTRY_TYPE_SEGHEADER 7 1 1024 0], appendsDisabled = False \<rparr>,
        3 \<mapsto> \<lparr> id = 2, isEmergencyHead = False, cleanedEpoch = 0, segletsAllocated = 4,
               entries = [LOG_ENTRY_TYPE_SEGHEADER 7 2 1024 (- 1), LOG_ENTRY_TYPE_LOGDIGEST [0, 2]],
               appendsDisabled = False \<rparr>,
        2 \<mapsto> \<lparr> id = 3, isEmergencyHead = True, cleanedEpoch = 0, segletsAllocated = 4,
               entries = [LOG_ENTRY_TYPE_SEGHEADER 7 3 1024 (- 1), LOG_ENTRY_TYPE_LOGDIGEST [1, 2, 3]],
               appendsDisabled = True \<rparr>],
      states = [2 \<mapsto> HEAD, 4 \<mapsto> NEWLY_CLEANABLE, 5 \<mapsto> FREEABLE_PENDING_REFERENCES,
                3 \<mapsto> NEWLY_CLEANABLE],
      freeSlots = [0, 1], nextSegmentId = 4,
      idToSlotMap = [0 \<mapsto> 5, 1 \<mapsto> 4, 2 \<mapsto> 3, 3 \<mapsto> 2],
      allSegments = [2, 4, 5, 3],
      segmentsByState = (\<lambda>_. [])(FREEABLE_PENDING_REFERENCES := [5], HEAD := [2],
                                   NEWLY_CLEANABLE := [4, 3]),
      logIteratorCount = 1, currentEpoch = 2, earliestOutstandingEpoch = 5,
      replicaLog = [AllocateHead 0 None, AllocateNonHead 1, AllocateHead 2 (Some 0),
                    Close 0, Sync 0 2, AllocateHead 3 (Some 2), Close 2, Sync 2 2] \<rparr>"

text \<open>A manager over two segments after \<open>allocHead(true)\<close> drew an emergency head
  (id 0, slot 1): one segment is free.\<close>

definition oneFree :: SegmentManager where
  "oneFree =
   \<lparr> logId = 7,
      allocator = \<lparr> freeSegmentCount = 1, segmentSize = 1024, segletsPerSegment = 4 \<rparr>,
      maxSegments = 2, numEmergencyHeads = 2, numEmergencyHeadsAlloced = 1,
      numSurvivorSegments = 0, numSurvivorSegmentsAlloced = 0,
      segments = [
        1 \<mapsto> \<lparr> id = 0, isEmergencyHead = True, cleanedEpoch = 0, segletsAllocated = 4,
               entries = [LOG_ENTRY_TYPE_SEGHEADER 7 0 1024 (- 1), LOG_ENTRY_TYPE_LOGDIGEST [0]],
               appendsDisabled = True \<rparr>],
      states = [1 \<mapsto> HEAD],
      freeSlots = [0], nextSegmentId = 1,
      idToSlotMap = [0 \<mapsto> 1],
      allSegments = [1],
      segmentsByState = (\<lambda>_. [])(HEAD := [1]),
      logIteratorCount = 0, currentEpoch = 1, earliestOutstandingEpoch = 1,
      replicaLog = [AllocateHead 0 None] \<rparr>"

text \<open>The manager of \<open>afterCleaning\<close> just before \<open>cleaningComplete\<close> is called: the
  survivor (slot 4) is in \<open>CLEANING_INTO\<close> and the first head (slot 5) is
  \<open>CLEANABLE\<close>.\<close>

definition beforeCleaning :: SegmentManager where
  "beforeCleaning =
   \<lparr> logId = 7,
      allocator = \<lparr> freeSegmentCount = 3, segmentSize = 1024, segletsPerSegment = 4 \<rparr>,
      maxSegments = 6, numEmergencyHeads = 2, numEmergencyHeadsAlloced = 0,
      numSurvivorSegments = 2, numSurvivorSegmentsAlloced = 1,
      segments = [
        5 \<mapsto> \<lparr> id = 0, isEmergencyHead = False, cleanedEpoch = 0, segletsAllocated = 4,
               entries = [LOG_ENTRY_TYPE_SEGHEADER 7 0 1024 (- 1), LOG_ENTRY_TYPE_LOGDIGEST [0]],
               appendsDisabled = False \<rparr>,
        4 \<mapsto> \<lparr> id = 1, isEmergencyHead = False, cleanedEpoch = 0, segletsAllocated = 4,
               entries = [LOG_ENTRY_TYPE_SEGHEADER 7 1 1024 0], appendsDisabled = False \<rparr>,
        3 \<mapsto> \<lparr> id = 2, isEmergencyHead = False, cleanedEpoch = 0, segletsAllocated = 4,
               entries = [LOG_ENTRY_TYPE_SEGHEADER 7 2 1024 (- 1), LOG_ENTRY_TYPE_LOGDIGEST [0, 2]],
               appendsDisabled = False \<rparr>],
      states = [4 \<mapsto> CLEANING_INTO, 3 \<mapsto> HEAD, 5 \<mapsto> CLEANABLE],
      freeSlots = [0, 1, 2], nextSegmentId = 3,
      idToSlotMap = [0 \<mapsto> 5, 1 \<mapsto> 4, 2 \<mapsto> 3],
      allSegments = [4, 3, 5],
      segmentsByState = (\<lambda>_. [])(CLEANING_INTO := [4], HEAD := [3], CLEANABLE := [5]),
      logIteratorCount = 0, currentEpoch = 1, earliestOutstandingEpoch = 1,
      replicaLog = [AllocateHead 0 None, AllocateNonHead 1, AllocateHead 2 (Some 0),
                    Close 0, Sync 0 2] \<rparr>"




text \<open>A sequence of calls made while an iterator exists: like \<open>run\<close>, but every call is
  made in a state whose \<open>logIteratorCount\<close> is positive.\<close>

fun whileIterating ::
  "(LogSegment \<Rightarrow> LogEntry \<Rightarrow> bool) \<Rightarrow> Call list \<Rightarrow> SegmentManager \<Rightarrow> SegmentManager option" where
  "whileIterating fits [] s = Some s"
| "whileIterating fits (c # cs) s =
     (if 0 < logIteratorCount s
      then (case call fits c s of None \<Rightarrow> None | Some s' \<Rightarrow> whileIterating fits cs s')
      else None)"

text \<open>The manager of \<open>afterCleaning\<close> after \<open>logIteratorCreated\<close>: an iterator exists while
  the survivor (slot 4) waits in \<open>CLEANABLE_PENDING_DIGEST\<close> and the cleaned segment (slot 5)
  in \<open>FREEABLE_PENDING_DIGEST_AND_REFERENCES\<close>.\<close>

definition duringIteration :: SegmentManager where
  "duringIteration = afterCleaning\<lparr> logIteratorCount := 1 \<rparr>"

text \<open>The manager of \<open>withIterator\<close> after the reclamation scan freed the cleaned segment
  of slot 5 (a segment that was not an emergency head, so the survivor count is
  decremented).\<close>

definition reclaimed :: SegmentManager where
  "reclaimed =
     withIterator\<lparr>
       allocator := \<lparr> freeSegmentCount = 3, segmentSize = 1024, segletsPerSegment = 4 \<rparr>,
       numSurvivorSegmentsAlloced := 0,
       segments := (segments withIterator)(5 := None),
       states := (states withIterator)(5 := None),
       freeSlots := [0, 1, 5],
       idToSlotMap := (idToSlotMap withIterator)(0 := None),
       allSegments := [2, 4, 3],
       segmentsByState := (segmentsByState withIterator)(FREEABLE_PENDING_REFERENCES := []) \<rparr>"

section \<open>Properties of the list operations\<close>

lemma changeState_eq:
  "states s p = Some old \<Longrightarrow> changeState p new s = Inr (transitioned p old new s)"
  by (simp add: changeState_def removeFromLists_def addToLists_def transitioned_def)

lemma transitioned_wf:
  assumes "wellFormed s" "states s p = Some old"
  shows "wellFormed (transitioned p old new s)"
  using assms
  unfolding wellFormed_def transitioned_def
  by simp

lemma moved_Nil: "segmentsByState s src = [] \<Longrightarrow> moved src dst s = s"
  by (simp add: moved_def fun_upd_idem)

lemma filter_remove1_distinct:
  "distinct xs \<Longrightarrow> filter P (remove1 p xs) = filter (\<lambda>q. q \<noteq> p \<and> P q) xs"
  by (induction xs) (auto intro!: filter_cong)

lemma remove1_distinct:
  "distinct xs \<Longrightarrow> remove1 p xs = filter (\<lambda>q. q \<noteq> p) xs"
  by (induction xs) (auto intro!: filter_True [symmetric])

lemma filter_absent:
  "p \<notin> set xs \<Longrightarrow> filter (\<lambda>q. q \<noteq> p) xs = xs"
  by (induction xs) auto

lemma moved_transitioned:
  assumes wf: "wellFormed s" and ne: "src \<noteq> dst" and l: "segmentsByState s src = p # ps"
  shows "moved src dst (transitioned p src dst s) = moved src dst s"
proof -
  have d: "distinct (p # ps)" using wf l unfolding wellFormed_def by metis
  have dA: "distinct (allSegments s)" using wf unfolding wellFormed_def by blast
  have f: "filter (\<lambda>q. q \<notin> set ps) (remove1 p (allSegments s))
           = filter (\<lambda>q. q \<notin> set (p # ps)) (allSegments s)"
    using dA by (simp add: filter_remove1_distinct conj_commute)
  show ?thesis
    using d ne l f by (auto simp: moved_def transitioned_def fun_eq_iff)
qed

lemma drain_eq:
  assumes "wellFormed s" "src \<noteq> dst"
  shows "drain src dst f acc s =
           Some (Inr (fold (\<lambda>p. f p (the (segments s p))) (segmentsByState s src) acc,
                      moved src dst s))"
  using assms
proof (induction "length (segmentsByState s src)" arbitrary: s acc)
  case 0
  then show ?case by (subst drain.simps) (simp add: moved_Nil)
next
  case (Suc n)
  then obtain p ps where l: "segmentsByState s src = p # ps"
    by (cases "segmentsByState s src") auto
  have st: "states s p = Some src"
    using Suc.prems(1) l unfolding wellFormed_def by (metis list.set_intros(1))
  then obtain seg where sg: "segments s p = Some seg"
    using Suc.prems(1) unfolding wellFormed_def by (metis option.distinct(1) option.exhaust)
  let ?s1 = "transitioned p src dst s"
  have wf1: "wellFormed ?s1" using Suc.prems(1) st by (rule transitioned_wf)
  have l1: "segmentsByState ?s1 src = ps"
    using l Suc.prems(2) by (simp add: transitioned_def)
  have sg1: "segments ?s1 = segments s" by (simp add: transitioned_def)
  have n: "n = length (segmentsByState ?s1 src)" using Suc.hyps(2) l l1 by simp
  have ih: "drain src dst f (f p seg acc) ?s1 =
              Some (Inr (fold (\<lambda>p. f p (the (segments ?s1 p))) (segmentsByState ?s1 src) (f p seg acc),
                         moved src dst ?s1))"
    using Suc.hyps(1) [OF n wf1 Suc.prems(2)] .
  show ?case
    by (subst drain.simps)
       (simp add: l sg changeState_eq [OF st] ih l1 sg1
                  moved_transitioned [OF Suc.prems(1) Suc.prems(2) l])
qed

lemma moved_wf:
  assumes "wellFormed s" "src \<noteq> dst"
  shows "wellFormed (moved src dst s)"
  using assms unfolding wellFormed_def moved_def
  by (auto split: if_splits)

lemma segmentIds_Nil [simp]: "segmentIds s [] = []"
  by (simp add: segmentIds_def List.map_filter_def)

lemma segmentIds_Cons:
  "segmentIds s (p # ps) =
     (case segments s p of None \<Rightarrow> segmentIds s ps | Some seg \<Rightarrow> id seg # segmentIds s ps)"
  by (simp add: segmentIds_def List.map_filter_def split: option.splits)

lemma segmentIds_live:
  "\<forall>p \<in> set ps. segments s p \<noteq> None \<Longrightarrow> segmentIds s ps = map (\<lambda>p. id (the (segments s p))) ps"
  by (induction ps) (auto simp: segmentIds_Cons)

lemma segmentIds_cong:
  "\<forall>p \<in> set ps. segments s p = segments s' p \<Longrightarrow> segmentIds s ps = segmentIds s' ps"
  by (induction ps) (auto simp: segmentIds_Cons split: option.splits)

lemma released_Nil: "released [] s s"
  by (simp add: released_def)

lemma free_released:
  assumes wf: "wellFormed s" and live: "states s p \<noteq> None"
  shows "\<exists>s'. free p s = Inr s' \<and> released [p] s s' \<and> wellFormed s'"
proof -
  obtain st where st: "states s p = Some st" using live by auto
  obtain seg where sg: "segments s p = Some seg"
    using wf live unfolding wellFormed_def by (metis option.exhaust)
  have d: "\<And>st'. distinct (segmentsByState s st')" and dA: "distinct (allSegments s)"
    using wf unfolding wellFormed_def by blast+
  have mem: "\<And>st' q. q \<in> set (segmentsByState s st') \<longleftrightarrow> states s q = Some st'"
    using wf unfolding wellFormed_def by blast
  have l1: "remove1 p (segmentsByState s st) = filter (\<lambda>q. q \<noteq> p) (segmentsByState s st)"
    using d [of st] by (rule remove1_distinct)
  have l2: "filter (\<lambda>q. q \<noteq> p) (segmentsByState s st') = segmentsByState s st'"
    if "st' \<noteq> st" for st'
    using mem [of p st'] st that by (auto simp: filter_absent)
  have a: "remove1 p (allSegments s) = filter (\<lambda>q. q \<noteq> p) (allSegments s)"
    using dA by (rule remove1_distinct)
  have fp: "p \<notin> set (freeSlots s)"
    using wf sg unfolding wellFormed_def by auto
  show ?thesis
    using wf st sg l1 l2 a fp
    unfolding wellFormed_def
    by (auto simp: free_def removeFromLists_def released_def Let_def fun_eq_iff
                   segmentIds_Cons)
qed

lemma segmentIds_append: "segmentIds s (xs @ ys) = segmentIds s xs @ segmentIds s ys"
  by (simp add: segmentIds_def List.map_filter_def)

lemma released_Cons:
  assumes r1: "released [p] s s1" and r2: "released F s1 s'" and nin: "p \<notin> set F"
  shows "released (p # F) s s'"
proof -
  have "\<forall>q \<in> set F. segments s1 q = segments s q"
    using r1 nin by (auto simp: released_def)
  then have ids: "segmentIds s1 F = segmentIds s F" by (rule segmentIds_cong)
  have c: "segmentIds s (p # F) = segmentIds s [p] @ segmentIds s F"
    using segmentIds_append [of s "[p]" F] by simp
  have m: "(q \<notin> set F \<and> q \<noteq> p) = (q \<noteq> p \<and> q \<notin> set F)" for q by blast
  show ?thesis
    unfolding released_def
  proof (intro conjI)
    show "segments s' = (\<lambda>q. if q \<in> set (p # F) then None else segments s q)"
      using r1 r2 by (auto simp: released_def fun_eq_iff)
    show "states s' = (\<lambda>q. if q \<in> set (p # F) then None else states s q)"
      using r1 r2 by (auto simp: released_def fun_eq_iff)
    show "freeSlots s' = freeSlots s @ p # F"
      using r1 r2 by (simp add: released_def)
    show "idToSlotMap s' =
       (\<lambda>i. if i \<in> set (segmentIds s (p # F)) then None else idToSlotMap s i)"
      using r1 r2 unfolding c by (auto simp: released_def fun_eq_iff ids)
    show "segmentsByState s' = (\<lambda>st. filter (\<lambda>q. q \<notin> set (p # F)) (segmentsByState s st))"
      using r1 r2 by (simp add: released_def fun_eq_iff m)
    show "allSegments s' = filter (\<lambda>q. q \<notin> set (p # F)) (allSegments s)"
      using r1 r2 by (simp add: released_def m)
  qed (use r1 r2 in \<open>simp_all add: released_def\<close>)
qed

lemma freeUnreferencedSegments_loop_released:
  assumes "wellFormed s" "distinct ps" "\<forall>p \<in> set ps. states s p \<noteq> None"
  shows "\<exists>s'. freeUnreferencedSegments_loop e ps s = Inr s' \<and>
              released (filter (unreferenced e s) ps) s s' \<and> wellFormed s'"
  using assms
proof (induction ps arbitrary: s)
  case Nil
  then show ?case by (simp add: released_Nil)
next
  case (Cons p ps)
  have live: "states s p \<noteq> None" using Cons.prems(3) by simp
  then obtain seg where sg: "segments s p = Some seg"
    using Cons.prems(1) unfolding wellFormed_def by (metis option.exhaust)
  have nin: "p \<notin> set ps" and dps: "distinct ps" using Cons.prems(2) by auto
  show ?case
  proof (cases "cleanedEpoch seg < e")
    case True
    obtain s1 where f: "free p s = Inr s1" and r1: "released [p] s s1" and wf1: "wellFormed s1"
      using free_released [OF Cons.prems(1) live] by blast
    have live1: "\<forall>q \<in> set ps. states s1 q \<noteq> None"
      using r1 nin Cons.prems(3) by (auto simp: released_def)
    obtain s' where l: "freeUnreferencedSegments_loop e ps s1 = Inr s'"
        and r2: "released (filter (unreferenced e s1) ps) s1 s'" and wf': "wellFormed s'"
      using Cons.IH [OF wf1 dps live1] by blast
    have "\<forall>q \<in> set ps. segments s1 q = segments s q"
      using r1 nin by (auto simp: released_def)
    then have fe: "filter (unreferenced e s1) ps = filter (unreferenced e s) ps"
      by (intro filter_cong) (simp_all add: unreferenced_def)
    have r2': "released (filter (unreferenced e s) ps) s1 s'" using r2 fe by simp
    have nin': "p \<notin> set (filter (unreferenced e s) ps)" using nin by simp
    have "released (p # filter (unreferenced e s) ps) s s'"
      using r1 r2' nin' by (rule released_Cons)
    moreover have "unreferenced e s p" using sg True by (simp add: unreferenced_def)
    moreover have "freeUnreferencedSegments_loop e (p # ps) s = Inr s'"
      using sg True f l by simp
    ultimately show ?thesis using wf' by simp
  next
    case False
    have live1: "\<forall>q \<in> set ps. states s q \<noteq> None" using Cons.prems(3) by simp
    have "\<not> unreferenced e s p" using sg False by (simp add: unreferenced_def)
    moreover have "freeUnreferencedSegments_loop e (p # ps) s = freeUnreferencedSegments_loop e ps s"
      using sg False by simp
    ultimately show ?thesis
      using Cons.IH [OF Cons.prems(1) dps live1] by simp
  qed
qed

lemma freeUnreferencedSegments_released:
  assumes wf: "wellFormed s"
  shows "\<exists>s'. freeUnreferencedSegments s = Inr s' \<and>
              released (filter (unreferenced (earliestOutstandingEpoch s) s)
                         (segmentsByState s FREEABLE_PENDING_REFERENCES)) s s' \<and>
              wellFormed s'"
proof (cases "segmentsByState s FREEABLE_PENDING_REFERENCES = []")
  case True
  then show ?thesis using wf by (simp add: freeUnreferencedSegments_def released_Nil)
next
  case False
  have d: "distinct (segmentsByState s FREEABLE_PENDING_REFERENCES)"
    and l: "\<forall>p \<in> set (segmentsByState s FREEABLE_PENDING_REFERENCES). states s p \<noteq> None"
    using wf unfolding wellFormed_def by auto
  show ?thesis
    using freeUnreferencedSegments_loop_released [OF wf d l] False
    by (simp add: freeUnreferencedSegments_def)
qed

section \<open>The example states are reached from the constructor\<close>

lemmas evaluate =
  SegmentManager_new_def allocHead_def getHeadSegment_def alloc_def
  freeUnreferencedSegments_def mayAlloc_def addToLists_def removeFromLists_def
  changeState_def allocHead_install_def writeHeader_def writeDigest_def
  LogSegment_append_def segmentIds_def List.map_filter_def free_def drain.simps Let_def
  INVALID_SEGMENT_ID_def allocSurvivor_def cleaningComplete_def cleanableSegments_def
  incrementCurrentEpoch_def logIteratorCreated_def logIteratorDestroyed_def
  increaseSurvivorReserve_def upt_conv_Cons anyFits_def

lemma afterCleaning_run:
  "(case SegmentManager_new 7 sixFree False 6 1 1 of Inl e \<Rightarrow> None | Inr s \<Rightarrow> run anyFits cleaningPass s)
   = Some afterCleaning"
  by (simp add: evaluate sixFree_def cleaningPass_def afterCleaning_def fun_eq_iff)

lemma withIterator_run: "run anyFits iteratorCreated afterCleaning = Some withIterator"
  by (simp add: evaluate iteratorCreated_def afterCleaning_def withIterator_def fun_eq_iff)

lemma oneFree_run:
  "(case SegmentManager_new 7 twoFree False 2 1 1 of Inl e \<Rightarrow> None | Inr s \<Rightarrow> run anyFits [AllocHead True] s)
   = Some oneFree"
  by (simp add: evaluate twoFree_def oneFree_def fun_eq_iff)

lemma run_reachable: "reachable s \<Longrightarrow> run fits cs s = Some s' \<Longrightarrow> reachable s'"
  by (induction cs arbitrary: s) (auto split: option.splits intro: reachable.called)

lemma afterCleaning_reachable: "reachable afterCleaning"
proof -
  obtain s where n: "SegmentManager_new 7 sixFree False 6 1 1 = Inr s"
    and r: "run anyFits cleaningPass s = Some afterCleaning"
    using afterCleaning_run by (cases "SegmentManager_new 7 sixFree False 6 1 1") auto
  show ?thesis using run_reachable [OF reachable.constructed [OF n] r] .
qed

lemma withIterator_reachable: "reachable withIterator"
  using run_reachable [OF afterCleaning_reachable withIterator_run] .

lemma oneFree_reachable: "reachable oneFree"
proof -
  obtain s where n: "SegmentManager_new 7 twoFree False 2 1 1 = Inr s"
    and r: "run anyFits [AllocHead True] s = Some oneFree"
    using oneFree_run by (cases "SegmentManager_new 7 twoFree False 2 1 1") auto
  show ?thesis using run_reachable [OF reachable.constructed [OF n] r] .
qed

lemma afterCleaning_wf: "wellFormed afterCleaning"
  unfolding wellFormed_def afterCleaning_def by (auto split: if_splits)

lemma withIterator_wf: "wellFormed withIterator"
  unfolding wellFormed_def withIterator_def by (auto split: if_splits)

lemma beforeCleaning_run:
  "(case SegmentManager_new 7 sixFree False 6 1 1 of Inl e \<Rightarrow> None | Inr s \<Rightarrow> run anyFits (butlast cleaningPass) s)
   = Some beforeCleaning"
  by (simp add: evaluate sixFree_def cleaningPass_def beforeCleaning_def fun_eq_iff)





section \<open>Admission and counters\<close>

lemma mayAlloc_Inr:
  assumes "mayAlloc type s = Inr b"
  shows "numEmergencyHeadsAlloced s \<le> numEmergencyHeads s \<and>
         numSurvivorSegmentsAlloced s \<le> numSurvivorSegments s \<and>
         (b \<longleftrightarrow> (case type of
                 ALLOC_EMERGENCY_HEAD \<Rightarrow> True
               | ALLOC_SURVIVOR \<Rightarrow> unat (numSurvivorSegments s - numSurvivorSegmentsAlloced s) \<noteq> 0
               | ALLOC_HEAD \<Rightarrow>
                   unat (freeSegmentCount (allocator s)) >
                     unat (numEmergencyHeads s - numEmergencyHeadsAlloced s)
                     + unat (numSurvivorSegments s - numSurvivorSegmentsAlloced s)))"
proof (cases type)
  case ALLOC_HEAD
  then show ?thesis using assms
    by (simp add: mayAlloc_def Let_def split: if_splits)
next
  case ALLOC_EMERGENCY_HEAD
  then show ?thesis using assms
    by (simp add: mayAlloc_def Let_def split: if_splits)
next
  case ALLOC_SURVIVOR
  then show ?thesis using assms
    by (simp add: mayAlloc_def Let_def split: if_splits)
qed

lemma uint_reserve:
  fixes a b :: "32 word"
  assumes "b \<le> a"
  shows "int (unat (a - b)) = int (unat a) - int (unat b)"
  using assms by (simp add: unat_sub word_le_nat_alt)

lemma uint_pred:
  fixes w :: "32 word"
  assumes "0 < w"
  shows "uint (w - 1) = max 0 (uint w - 1)"
proof -
  have p: "0 < unat w" using assms by (simp add: word_less_nat_alt)
  then have "1 \<le> w" by (simp add: word_le_nat_alt)
  then have "unat (w - 1) = unat w - unat (1 :: 32 word)" by (rule unat_sub)
  then have "int (unat (w - 1)) = int (unat w) - 1" using p by simp
  then show ?thesis using p unfolding uint_nat by linarith
qed

lemma uint_zero:
  fixes w :: "32 word"
  assumes "\<not> 0 < w"
  shows "uint w = max 0 (uint w - 1)"
proof -
  have "unat w = 0" using assms by (simp add: word_less_nat_alt)
  then show ?thesis unfolding uint_nat by simp
qed

section \<open>Allocation\<close>

lemma mayAlloc_True_freeSlots: "mayAlloc type s = Inr True \<Longrightarrow> freeSlots s \<noteq> []"
  by (cases type) (auto simp: mayAlloc_def Let_def split: if_splits)

lemma alloc_eq:
  assumes "freeUnreferencedSegments s = Inr s1"
  shows "alloc type s =
     (case mayAlloc type s1 of
        Inl e \<Rightarrow> Inl e
      | Inr False \<Rightarrow> Inr (None, s1)
      | Inr True \<Rightarrow>
          if segments s1 (last (freeSlots s1)) \<noteq> None then Inl AssertionFailure
          else Inr (Some (last (freeSlots s1)), born type s1))"
  using assms
  by (cases type)
     (simp_all add: alloc_def Let_def addToLists_def born_def split: sum.splits bool.splits)

lemma born_wf:
  assumes wf: "wellFormed s" and ne: "freeSlots s \<noteq> []"
  shows "wellFormed (born type s)"
proof -
  let ?p = "last (freeSlots s)"
  have m: "?p \<in> set (freeSlots s)" using ne by simp
  have fs: "segments s ?p = None" "states s ?p = None"
    using wf m unfolding wellFormed_def by auto
  have nl: "?p \<notin> set (segmentsByState s st)" for st
    using wf fs unfolding wellFormed_def by auto
  have na: "?p \<notin> set (allSegments s)"
    using wf fs unfolding wellFormed_def by auto
  have db: "distinct (butlast (freeSlots s))" "?p \<notin> set (butlast (freeSlots s))"
    "set (butlast (freeSlots s)) \<subseteq> set (freeSlots s)"
    using wf ne unfolding wellFormed_def
    by (auto simp: distinct_butlast dest: in_set_butlastD)
       (metis append_butlast_last_id distinct_append disjoint_iff list.set_intros(1))
  show ?thesis
    using wf fs nl na db unfolding wellFormed_def born_def Let_def
    by (auto split: if_splits)
qed

section \<open>Head allocation\<close>

lemma allocHead_install_Some:
  assumes "allocHead_install fits prevHead newHead s = Some (Inr (r, s'))"
  shows "r = Some newHead"
  using assms
  by (auto simp: allocHead_install_def Let_def
           split: sum.splits option.splits if_splits prod.splits)

lemma allocHead_absent_cases:
  assumes wf: "wellFormed s"
    and a: "allocHead fits mustNotFail s = Some (Inr (None, s'))"
  shows "freeUnreferencedSegments s = Inr s' \<and> mayAlloc ALLOC_HEAD s' = Inr False \<and>
         \<not> mustNotFail \<and> segmentsByState s' FREEABLE_PENDING_DIGEST_AND_REFERENCES = []"
proof -
  obtain s1 where f: "freeUnreferencedSegments s = Inr s1"
    using freeUnreferencedSegments_released [OF wf] by blast
  show ?thesis
    using a f
    by (auto simp: allocHead_def alloc_eq [OF f]
             dest: allocHead_install_Some
             split: sum.splits option.splits if_splits prod.splits bool.splits)
qed

lemma moved_simps [simp]:
  "segments (moved a b s) = segments s"
  "logIteratorCount (moved a b s) = logIteratorCount s"
  "freeSlots (moved a b s) = freeSlots s"
  "nextSegmentId (moved a b s) = nextSegmentId s"
  by (simp_all add: moved_def)

lemma segmentIds_moved [simp]: "segmentIds (moved a b s) ps = segmentIds s ps"
  by (simp add: segmentIds_def)

lemma writeDigest_eq:
  assumes wf: "wellFormed s"
  shows "writeDigest fits n prev s =
     (case segments s n of
        None \<Rightarrow> Some (Inl InvalidSegment)
      | Some seg \<Rightarrow>
          (case LogSegment_append fits (LOG_ENTRY_TYPE_LOGDIGEST (digestIds s n prev)) seg of
             None \<Rightarrow> Some (Inl FatalError)
           | Some seg' \<Rightarrow>
               Some (Inr ((digested s)\<lparr> segments := (segments s)(n \<mapsto> seg') \<rparr>))))"
proof (cases "logIteratorCount s = 0")
  case True
  let ?s1 = "moved CLEANABLE_PENDING_DIGEST NEWLY_CLEANABLE s"
  have wf1: "wellFormed ?s1" using wf by (rule moved_wf) simp
  have d1: "drain CLEANABLE_PENDING_DIGEST NEWLY_CLEANABLE f u s = Some (Inr ((), ?s1))"
    for f and u :: unit
    using drain_eq [OF wf, of CLEANABLE_PENDING_DIGEST NEWLY_CLEANABLE f u] by simp
  have d2: "drain FREEABLE_PENDING_DIGEST_AND_REFERENCES FREEABLE_PENDING_REFERENCES f u ?s1
            = Some (Inr ((), moved FREEABLE_PENDING_DIGEST_AND_REFERENCES FREEABLE_PENDING_REFERENCES ?s1))"
    for f and u :: unit
    using drain_eq [OF wf1, of FREEABLE_PENDING_DIGEST_AND_REFERENCES FREEABLE_PENDING_REFERENCES
                      f u] by simp
  have l: "segmentsByState ?s1 CLEANABLE = segmentsByState s CLEANABLE"
          "segmentsByState ?s1 NEWLY_CLEANABLE
             = segmentsByState s NEWLY_CLEANABLE @ segmentsByState s CLEANABLE_PENDING_DIGEST"
    by (simp_all add: moved_def)
  show ?thesis
    using True
    by (simp add: writeDigest_def d1 d2 l digestIds_def digested_def segmentIds_append Let_def
             split: option.splits)
next
  case False
  then show ?thesis
    by (simp add: writeDigest_def digestIds_def digested_def Let_def split: option.splits)
qed

lemma wellFormed_touch:
  assumes "wellFormed s" "segments s n \<noteq> None"
  shows "wellFormed (s\<lparr> segments := (segments s)(n \<mapsto> x) \<rparr>)"
  using assms unfolding wellFormed_def by auto

lemma segmentIds_touch:
  assumes "segments s n = Some seg" "id x = id seg"
  shows "segmentIds (s\<lparr> segments := (segments s)(n \<mapsto> x) \<rparr>) ps = segmentIds s ps"
  using assms by (induction ps) (auto simp: segmentIds_Cons split: option.splits)

lemma digestIds_touch:
  assumes "segments s n = Some seg" "id x = id seg"
  shows "digestIds (s\<lparr> segments := (segments s)(n \<mapsto> x) \<rparr>) m prev = digestIds s m prev"
  using segmentIds_touch [OF assms]
  by (simp add: digestIds_def split: option.splits)

lemma moved_touch:
  "moved a b (s\<lparr> segments := f \<rparr>) = (moved a b s)\<lparr> segments := f \<rparr>"
  by (simp add: moved_def cong: if_cong)

lemma digested_touch:
  "digested (s\<lparr> segments := f \<rparr>) = (digested s)\<lparr> segments := f \<rparr>"
  by (simp add: digested_def moved_touch)

lemma moved_frame [simp]:
  "replicaLog (moved a b s) = replicaLog s"
  "logId (moved a b s) = logId s"
  "allocator (moved a b s) = allocator s"
  by (simp_all add: moved_def)

lemma digested_simps [simp]:
  "segments (digested s) = segments s"
  "logIteratorCount (digested s) = logIteratorCount s"
  "replicaLog (digested s) = replicaLog s"
  "logId (digested s) = logId s"
  "allocator (digested s) = allocator s"
  by (simp_all add: digested_def)

lemma allocHead_install_Inr:
  assumes wf: "wellFormed s" and ne: "prev \<noteq> Some n"
    and a: "allocHead_install fits prev n s = Some (Inr (r, s'))"
  shows "segments s n \<noteq> None \<and> r = Some n \<and>
         (case prev of
            None \<Rightarrow> s' = written n prev s
          | Some q \<Rightarrow>
              (\<exists>sq. segments s q = Some sq \<and>
                 (if isEmergencyHead sq then free q (written n prev s)
                  else changeState q NEWLY_CLEANABLE (written n prev s)) = Inr s'))"
proof -
  obtain seg0 where g: "segments s n = Some seg0"
    using a by (cases "segments s n") (auto simp: allocHead_install_def writeHeader_def)
  let ?hdr = "LOG_ENTRY_TYPE_SEGHEADER (logId s) (id seg0) (segmentSize (allocator s)) INVALID_SEGMENT_ID"
  let ?seg1 = "seg0\<lparr> entries := entries seg0 @ [?hdr] \<rparr>"
  let ?s1 = "s\<lparr> segments := (segments s)(n \<mapsto> ?seg1) \<rparr>"
  have h: "writeHeader fits n INVALID_SEGMENT_ID s = Inr ?s1" and ok: "\<not> appendsDisabled seg0"
    using a g
    by (auto simp: allocHead_install_def writeHeader_def LogSegment_append_def Let_def
             split: if_splits)
  have wf1: "wellFormed ?s1" using wf g by (intro wellFormed_touch) auto
  have di: "digestIds ?s1 n pd = digestIds s n pd" for pd
    using g by (intro digestIds_touch) auto
  note wd = writeDigest_eq [OF wf1, of fits n, unfolded di digested_touch]
  show ?thesis
  proof (cases prev)
    case None
    then show ?thesis
      using a g ok
      by (auto simp: allocHead_install_def h wd di written_def LogSegment_append_def Let_def
               split: if_splits)
  next
    case (Some q)
    then have qn: "q \<noteq> n" using ne by simp
    show ?thesis
    proof (cases "segments s q")
      case None
      then show ?thesis using a Some qn by (simp add: allocHead_install_def h)
    next
      case sq: (Some sq)
      show ?thesis
        using a g ok Some qn sq
        by (auto simp: allocHead_install_def h wd di written_def LogSegment_append_def Let_def
                 split: if_splits sum.splits)
    qed
  qed
qed

lemma wf_mem: "wellFormed s \<Longrightarrow> p \<in> set (segmentsByState s st) \<longleftrightarrow> states s p = Some st"
  unfolding wellFormed_def by blast

lemma wf_live: "wellFormed s \<Longrightarrow> segments s p = None \<longleftrightarrow> states s p = None"
  unfolding wellFormed_def by blast

lemma digested_wf: "wellFormed s \<Longrightarrow> wellFormed (digested s)"
  by (simp add: digested_def moved_wf)

lemma moved_list_other:
  "st \<noteq> a \<Longrightarrow> st \<noteq> b \<Longrightarrow> segmentsByState (moved a b s) st = segmentsByState s st"
  by (simp add: moved_def)

lemma moved_states:
  assumes "wellFormed s"
  shows "states (moved a b s) p = (if states s p = Some a then Some b else states s p)"
  using wf_mem [OF assms, of p a] by (simp add: moved_def)

lemma digested_list_other:
  assumes "st \<notin> {CLEANABLE_PENDING_DIGEST, NEWLY_CLEANABLE,
                  FREEABLE_PENDING_DIGEST_AND_REFERENCES, FREEABLE_PENDING_REFERENCES}"
  shows "segmentsByState (digested s) st = segmentsByState s st"
  using assms by (simp add: digested_def moved_list_other)

lemma digested_states:
  assumes wf: "wellFormed s"
  shows "states (digested s) p =
     (if logIteratorCount s = 0 \<and> states s p = Some CLEANABLE_PENDING_DIGEST then Some NEWLY_CLEANABLE
      else if logIteratorCount s = 0 \<and> states s p = Some FREEABLE_PENDING_DIGEST_AND_REFERENCES
           then Some FREEABLE_PENDING_REFERENCES
      else states s p)"
proof -
  have wf1: "wellFormed (moved CLEANABLE_PENDING_DIGEST NEWLY_CLEANABLE s)"
    using wf by (rule moved_wf) simp
  show ?thesis
    by (simp add: digested_def moved_states [OF wf1] moved_states [OF wf])
qed

lemma digested_frame [simp]:
  "freeSlots (digested s) = freeSlots s"
  "nextSegmentId (digested s) = nextSegmentId s"
  by (simp_all add: digested_def)

lemma written_fields:
  "states (written n prev s) = states (digested s)"
  "segmentsByState (written n prev s) = segmentsByState (digested s)"
  "allSegments (written n prev s) = allSegments (digested s)"
  "freeSlots (written n prev s) = freeSlots s"
  "nextSegmentId (written n prev s) = nextSegmentId s"
  "logIteratorCount (written n prev s) = logIteratorCount s"
  "q \<noteq> n \<Longrightarrow> segments (written n prev s) q = segments s q"
  by (simp_all add: written_def Let_def)

lemma written_wf:
  assumes wf: "wellFormed s" and live: "segments s n \<noteq> None"
  shows "wellFormed (written n prev s)"
proof -
  have "wellFormed ((digested s)\<lparr> segments := (segments (digested s))(n \<mapsto> x) \<rparr>)" for x
    using digested_wf [OF wf] live by (intro wellFormed_touch) simp_all
  then show ?thesis
    by (simp add: written_def Let_def wellFormed_def)
qed

lemma freeUnreferencedSegments_loop_noop:
  assumes "\<forall>p \<in> set ps. \<exists>seg. segments s p = Some seg \<and> \<not> cleanedEpoch seg < e"
  shows "freeUnreferencedSegments_loop e ps s = Inr s"
  using assms by (induction ps) auto

lemma freeUnreferencedSegments_idem:
  assumes wf: "wellFormed s" and f: "freeUnreferencedSegments s = Inr s1"
  shows "freeUnreferencedSegments s1 = Inr s1"
proof -
  let ?F = "filter (unreferenced (earliestOutstandingEpoch s) s)
              (segmentsByState s FREEABLE_PENDING_REFERENCES)"
  have r: "released ?F s s1" and wf1: "wellFormed s1"
    using freeUnreferencedSegments_released [OF wf] f by auto
  have "\<exists>seg. segments s1 p = Some seg \<and> \<not> cleanedEpoch seg < earliestOutstandingEpoch s1"
    if "p \<in> set (segmentsByState s1 FREEABLE_PENDING_REFERENCES)" for p
  proof -
    have 1: "p \<in> set (segmentsByState s FREEABLE_PENDING_REFERENCES)" "p \<notin> set ?F"
      using that r by (auto simp: released_def)
    then have "\<not> unreferenced (earliestOutstandingEpoch s) s p" by simp
    moreover have "segments s p \<noteq> None"
      using 1 wf_mem [OF wf] wf_live [OF wf, of p] by auto
    moreover have "segments s1 p = segments s p" "earliestOutstandingEpoch s1 = earliestOutstandingEpoch s"
      using r 1 by (auto simp: released_def)
    ultimately show ?thesis by (auto simp: unreferenced_def)
  qed
  then show ?thesis
    by (simp add: freeUnreferencedSegments_def freeUnreferencedSegments_loop_noop)
qed

lemma getHeadSegment_eq:
  "length (segmentsByState s HEAD) \<le> 1 \<Longrightarrow> getHeadSegment s = Inr (headOf s)"
  by (cases "segmentsByState s HEAD") (auto simp: getHeadSegment_def headOf_def)

lemma born_fields:
  assumes "type \<noteq> ALLOC_SURVIVOR"
  shows "states (born type s) = (states s)(last (freeSlots s) \<mapsto> HEAD)"
    "segmentsByState (born type s) = (segmentsByState s)(HEAD := segmentsByState s HEAD @ [last (freeSlots s)])"
    "segments (born type s) = (segments s)(last (freeSlots s) \<mapsto>
        \<lparr> id = nextSegmentId s, isEmergencyHead = (type = ALLOC_EMERGENCY_HEAD), cleanedEpoch = 0,
           segletsAllocated = segletsPerSegment (allocator s), entries = [],
           appendsDisabled = False \<rparr>)"
    "logIteratorCount (born type s) = logIteratorCount s"
    "logId (born type s) = logId s"
    "segmentSize (allocator (born type s)) = segmentSize (allocator s)"
  using assms by (simp_all add: born_def Let_def)

lemma allocHead_Some:
  assumes wf: "wellFormed s" and hd: "length (segmentsByState s HEAD) \<le> 1"
    and a: "allocHead fits m s = Some (Inr (Some n, s'))"
  shows "\<exists>s1 type. freeUnreferencedSegments s = Inr s1 \<and> mayAlloc type s1 = Inr True \<and>
           (type = ALLOC_HEAD \<or>
            type = ALLOC_EMERGENCY_HEAD \<and> mayAlloc ALLOC_HEAD s1 = Inr False \<and>
              (m \<or> segmentsByState s1 FREEABLE_PENDING_DIGEST_AND_REFERENCES \<noteq> [])) \<and>
           n = last (freeSlots s1) \<and>
           allocHead_install fits (headOf s) n (born type s1) = Some (Inr (Some n, s'))"
proof -
  obtain s1 where f: "freeUnreferencedSegments s = Inr s1"
    using freeUnreferencedSegments_released [OF wf] by blast
  note f1 = freeUnreferencedSegments_idem [OF wf f]
  have i: "r = Some n'" if "allocHead_install fits p n' x = Some (Inr (r, y))" for p n' x r y
    using that by (rule allocHead_install_Some)
  show ?thesis
  proof (cases "mayAlloc ALLOC_HEAD s1")
    case (Inl e)
    then show ?thesis using a by (simp add: allocHead_def getHeadSegment_eq [OF hd] alloc_eq [OF f])
  next
    case (Inr b)
    show ?thesis
    proof (cases b)
      case True
      then show ?thesis
        using a Inr f
        by (auto simp: allocHead_def getHeadSegment_eq [OF hd] alloc_eq [OF f]
                 split: if_splits dest: i)
    next
      case False
      show ?thesis
      proof (cases "mayAlloc ALLOC_EMERGENCY_HEAD s1")
        case e: (Inl e)
        then show ?thesis using a Inr False
          by (simp add: allocHead_def getHeadSegment_eq [OF hd] alloc_eq [OF f] alloc_eq [OF f1]
                   split: if_splits)
      next
        case e: (Inr b')
        then show ?thesis
          using a Inr False f
          by (cases b')
             (auto simp: allocHead_def getHeadSegment_eq [OF hd] alloc_eq [OF f] alloc_eq [OF f1]
                   split: if_splits dest: i)
      qed
    qed
  qed
qed

lemma headOf_Some:
  assumes "wellFormed s" "headOf s = Some q"
  shows "states s q = Some HEAD"
  using assms wf_mem [of s q HEAD]
  by (cases "segmentsByState s HEAD") (auto simp: headOf_def)

lemma released_keeps:
  assumes "released F s s'" "p \<notin> set F"
  shows "states s' p = states s p" "segments s' p = segments s p"
  using assms by (auto simp: released_def)

lemma scan_keeps:
  assumes wf: "wellFormed s" and f: "freeUnreferencedSegments s = Inr s1"
    and st: "states s p \<noteq> Some FREEABLE_PENDING_REFERENCES"
  shows "states s1 p = states s p" "segments s1 p = segments s p"
proof -
  let ?F = "filter (unreferenced (earliestOutstandingEpoch s) s)
              (segmentsByState s FREEABLE_PENDING_REFERENCES)"
  have r: "released ?F s s1"
    using freeUnreferencedSegments_released [OF wf] f by auto
  have "p \<notin> set ?F" using st wf_mem [OF wf, of p FREEABLE_PENDING_REFERENCES] by simp
  then show "states s1 p = states s p" "segments s1 p = segments s p"
    using released_keeps [OF r] by auto
qed

lemma scan_list_other:
  assumes wf: "wellFormed s" and f: "freeUnreferencedSegments s = Inr s1"
    and st: "st \<noteq> FREEABLE_PENDING_REFERENCES"
  shows "segmentsByState s1 st = segmentsByState s st"
proof -
  let ?F = "filter (unreferenced (earliestOutstandingEpoch s) s)
              (segmentsByState s FREEABLE_PENDING_REFERENCES)"
  have r: "released ?F s s1"
    using freeUnreferencedSegments_released [OF wf] f by auto
  have "p \<notin> set ?F" if "p \<in> set (segmentsByState s st)" for p
    using that st wf_mem [OF wf, of p] by auto
  then have "filter (\<lambda>p. p \<notin> set ?F) (segmentsByState s st) = segmentsByState s st"
    by (intro filter_True) blast
  then show ?thesis using r by (simp add: released_def)
qed

lemma allocHead_final:
  assumes wf: "wellFormed s" and hd: "length (segmentsByState s HEAD) \<le> 1"
    and a: "allocHead fits m s = Some (Inr (Some n, s'))"
  shows "\<exists>s1 type W.
           freeUnreferencedSegments s = Inr s1 \<and> wellFormed s1 \<and> mayAlloc type s1 = Inr True \<and>
           (type = ALLOC_HEAD \<or>
            type = ALLOC_EMERGENCY_HEAD \<and> mayAlloc ALLOC_HEAD s1 = Inr False \<and>
              (m \<or> segmentsByState s1 FREEABLE_PENDING_DIGEST_AND_REFERENCES \<noteq> [])) \<and>
           n = last (freeSlots s1) \<and> segments s1 n = None \<and> states s1 n = None \<and>
           wellFormed (born type s1) \<and>
           W = written n (headOf s) (born type s1) \<and> wellFormed W \<and>
           segmentsByState W HEAD = segmentsByState s HEAD @ [n] \<and>
           (case headOf s of
              None \<Rightarrow> s' = W
            | Some q \<Rightarrow>
                q \<noteq> n \<and> segmentsByState s HEAD = [q] \<and>
                (\<exists>sq. segments s q = Some sq \<and> segments s1 q = Some sq \<and>
                   (isEmergencyHead sq \<longrightarrow> free q W = Inr s' \<and> released [q] W s') \<and>
                   (\<not> isEmergencyHead sq \<longrightarrow> s' = transitioned q HEAD NEWLY_CLEANABLE W))) \<and>
           wellFormed s'"
proof -
  obtain s1 type where f: "freeUnreferencedSegments s = Inr s1"
    and ma: "mayAlloc type s1 = Inr True"
    and ty: "type = ALLOC_HEAD \<or>
            type = ALLOC_EMERGENCY_HEAD \<and> mayAlloc ALLOC_HEAD s1 = Inr False \<and>
              (m \<or> segmentsByState s1 FREEABLE_PENDING_DIGEST_AND_REFERENCES \<noteq> [])"
    and n: "n = last (freeSlots s1)"
    and ins: "allocHead_install fits (headOf s) n (born type s1) = Some (Inr (Some n, s'))"
    using allocHead_Some [OF wf hd a] by blast
  have tns: "type \<noteq> ALLOC_SURVIVOR" using ty by auto
  have wf1: "wellFormed s1" using freeUnreferencedSegments_released [OF wf] f by auto
  have ne: "freeSlots s1 \<noteq> []" using ma by (rule mayAlloc_True_freeSlots)
  then have "n \<in> set (freeSlots s1)" using n by simp
  then have n1: "segments s1 n = None" using wf1 unfolding wellFormed_def by blast
  then have n1s: "states s1 n = None" using wf_live [OF wf1] by simp
  let ?B = "born type s1"
  let ?W = "written n (headOf s) ?B"
  have wfB: "wellFormed ?B" using wf1 ne by (rule born_wf)
  have liveB: "segments ?B n \<noteq> None" by (simp add: born_fields [OF tns] n)
  have wfW: "wellFormed ?W" using wfB liveB by (rule written_wf)
  have hl1: "segmentsByState s1 HEAD = segmentsByState s HEAD"
    using scan_list_other [OF wf f] by simp
  have hlW: "segmentsByState ?W HEAD = segmentsByState s HEAD @ [n]"
    by (simp add: written_fields digested_list_other born_fields [OF tns] hl1 n)
  show ?thesis
  proof (cases "headOf s")
    case None
    have "s' = ?W"
      using allocHead_install_Inr [OF wfB _ ins] None by simp
    then show ?thesis
      using f wf1 ma ty n n1 n1s wfB wfW hlW None by auto
  next
    case (Some q)
    have qh: "states s q = Some HEAD" using wf Some by (rule headOf_Some)
    have hq: "segmentsByState s HEAD = [q]"
      using Some hd by (cases "segmentsByState s HEAD") (auto simp: headOf_def)
    have q1: "states s1 q = Some HEAD" "segments s1 q = segments s q"
      using scan_keeps [OF wf f, of q] qh by auto
    have qn: "q \<noteq> n" using q1 n1s by auto
    obtain sq where sq: "segments ?B q = Some sq"
      and fin: "(if isEmergencyHead sq then free q ?W else changeState q NEWLY_CLEANABLE ?W) = Inr s'"
      using allocHead_install_Inr [OF wfB _ ins] Some qn by auto
    have sqs: "segments s q = Some sq" "segments s1 q = Some sq"
      using sq qn q1 by (auto simp: born_fields [OF tns] n)
    have stW: "states ?W q = Some HEAD"
      using q1 qn by (simp add: written_fields digested_states [OF wfB] born_fields [OF tns] n)
    show ?thesis
    proof (cases "isEmergencyHead sq")
      case True
      obtain x where "free q ?W = Inr x" "released [q] ?W x" "wellFormed x"
        using free_released [OF wfW, of q] stW by auto
      then have "free q ?W = Inr s'" "released [q] ?W s'" "wellFormed s'"
        using fin True by auto
      then show ?thesis
        using f wf1 ma ty n n1 n1s wfB wfW hlW Some qn hq sqs True by auto
    next
      case False
      have "s' = transitioned q HEAD NEWLY_CLEANABLE ?W"
        using fin False changeState_eq [OF stW] by simp
      moreover have "wellFormed (transitioned q HEAD NEWLY_CLEANABLE ?W)"
        using wfW stW by (rule transitioned_wf)
      ultimately show ?thesis
        using f wf1 ma ty n n1 n1s wfB wfW hlW Some qn hq sqs False by auto
    qed
  qed
qed

lemma set_segmentIds:
  "set (segmentIds s ps) = {i. \<exists>p seg. p \<in> set ps \<and> segments s p = Some seg \<and> id seg = i}"
  by (induction ps) (auto simp: segmentIds_Cons split: option.splits)

lemma distinct_segmentIds:
  assumes "idsOk s" "distinct ps"
  shows "distinct (segmentIds s ps)"
  using assms
proof (induction ps)
  case Nil
  then show ?case by simp
next
  case (Cons p ps)
  show ?case
  proof (cases "segments s p")
    case None
    then show ?thesis using Cons by (simp add: segmentIds_Cons)
  next
    case (Some sp)
    have "id sp \<notin> set (segmentIds s ps)"
    proof
      assume "id sp \<in> set (segmentIds s ps)"
      then obtain q sq where "q \<in> set ps" "segments s q = Some sq" "id sq = id sp"
        by (auto simp: set_segmentIds)
      then have "q = p" using Some Cons.prems(1) unfolding idsOk_def by metis
      then show False using \<open>q \<in> set ps\<close> Cons.prems(2) by simp
    qed
    then show ?thesis using Cons Some by (simp add: segmentIds_Cons)
  qed
qed

lemma written_new:
  assumes "segments s n = Some seg0"
  shows "\<exists>new. segments (written n prev s) n = Some new \<and> id new = id seg0 \<and>
           isEmergencyHead new = isEmergencyHead seg0 \<and>
           cleanedEpoch new = cleanedEpoch seg0 \<and>
           segletsAllocated new = segletsAllocated seg0 \<and>
           entries new = entries seg0 @
             [LOG_ENTRY_TYPE_SEGHEADER (logId s) (id seg0) (segmentSize (allocator s))
                INVALID_SEGMENT_ID,
              LOG_ENTRY_TYPE_LOGDIGEST (digestIds s n
                (case prev of
                   None \<Rightarrow> None
                 | Some q \<Rightarrow> (case segments s q of
                                None \<Rightarrow> None
                              | Some sq \<Rightarrow> if isEmergencyHead sq then None else Some q)))]"
  using assms by (simp add: written_def Let_def)

lemma allocHead_keeps_new:
  assumes wf: "wellFormed s" and hd: "length (segmentsByState s HEAD) \<le> 1"
    and a: "allocHead fits m s = Some (Inr (Some n, s'))"
  shows "\<exists>s1 type. freeUnreferencedSegments s = Inr s1 \<and> mayAlloc type s1 = Inr True \<and>
           (type = ALLOC_HEAD \<or>
            type = ALLOC_EMERGENCY_HEAD \<and> mayAlloc ALLOC_HEAD s1 = Inr False \<and>
              (m \<or> segmentsByState s1 FREEABLE_PENDING_DIGEST_AND_REFERENCES \<noteq> [])) \<and>
           n = last (freeSlots s1) \<and> segments s1 n = None \<and>
           segments s' n = segments (written n (headOf s) (born type s1)) n"
proof -
  obtain s1 type W where f: "freeUnreferencedSegments s = Inr s1"
    and ma: "mayAlloc type s1 = Inr True"
    and ty: "type = ALLOC_HEAD \<or>
            type = ALLOC_EMERGENCY_HEAD \<and> mayAlloc ALLOC_HEAD s1 = Inr False \<and>
              (m \<or> segmentsByState s1 FREEABLE_PENDING_DIGEST_AND_REFERENCES \<noteq> [])"
    and n: "n = last (freeSlots s1)" "segments s1 n = None"
    and W: "W = written n (headOf s) (born type s1)"
    and fin: "case headOf s of
              None \<Rightarrow> s' = W
            | Some q \<Rightarrow>
                q \<noteq> n \<and> segmentsByState s HEAD = [q] \<and>
                (\<exists>sq. segments s q = Some sq \<and> segments s1 q = Some sq \<and>
                   (isEmergencyHead sq \<longrightarrow> free q W = Inr s' \<and> released [q] W s') \<and>
                   (\<not> isEmergencyHead sq \<longrightarrow> s' = transitioned q HEAD NEWLY_CLEANABLE W))"
    using allocHead_final [OF wf hd a] by blast
  have "segments s' n = segments W n"
  proof (cases "headOf s")
    case None
    then show ?thesis using fin by simp
  next
    case (Some q)
    then have qn: "q \<noteq> n"
      and ex: "\<exists>sq. segments s q = Some sq \<and> segments s1 q = Some sq \<and>
                   (isEmergencyHead sq \<longrightarrow> free q W = Inr s' \<and> released [q] W s') \<and>
                   (\<not> isEmergencyHead sq \<longrightarrow> s' = transitioned q HEAD NEWLY_CLEANABLE W)"
      using fin by simp_all
    obtain sq :: LogSegment where c: "isEmergencyHead sq \<longrightarrow> released [q] W s'"
             "\<not> isEmergencyHead sq \<longrightarrow> s' = transitioned q HEAD NEWLY_CLEANABLE W"
      using ex by blast
    show ?thesis
    proof (cases "isEmergencyHead sq")
      case True
      then have "released [q] W s'" using c by simp
      then show ?thesis using qn by (simp add: released_def)
    next
      case False
      then show ?thesis using c by (simp add: transitioned_def)
    qed
  qed
  then show ?thesis using f ma ty n W by blast
qed

lemma scan_frame:
  assumes wf: "wellFormed s" and f: "freeUnreferencedSegments s = Inr s1"
  shows "logId s1 = logId s" "nextSegmentId s1 = nextSegmentId s"
    "logIteratorCount s1 = logIteratorCount s"
    "segmentSize (allocator s1) = segmentSize (allocator s)"
    "earliestOutstandingEpoch s1 = earliestOutstandingEpoch s"
    "currentEpoch s1 = currentEpoch s"
  using freeUnreferencedSegments_released [OF wf] f by (auto simp: released_def)

lemma allocHead_writes_digestOf:
  assumes wf: "wellFormed s" and hd: "length (segmentsByState s HEAD) \<le> 1"
    and a: "allocHead fits m s = Some (Inr (Some n, s'))"
  shows "\<exists>new. segments s' n = Some new \<and> id new = nextSegmentId s \<and>
           entries new =
             [LOG_ENTRY_TYPE_SEGHEADER (logId s) (nextSegmentId s) (segmentSize (allocator s))
                INVALID_SEGMENT_ID,
              LOG_ENTRY_TYPE_LOGDIGEST (digestOf s)] \<and>
           (isEmergencyHead new \<longleftrightarrow>
              (\<exists>s1. alloc ALLOC_HEAD s = Inr (None, s1)))"
proof -
  obtain s1 type where f: "freeUnreferencedSegments s = Inr s1"
    and ma: "mayAlloc type s1 = Inr True"
    and ty: "type = ALLOC_HEAD \<or>
            type = ALLOC_EMERGENCY_HEAD \<and> mayAlloc ALLOC_HEAD s1 = Inr False \<and>
              (m \<or> segmentsByState s1 FREEABLE_PENDING_DIGEST_AND_REFERENCES \<noteq> [])"
    and n: "n = last (freeSlots s1)" "segments s1 n = None"
    and sn: "segments s' n = segments (written n (headOf s) (born type s1)) n"
    using allocHead_keeps_new [OF wf hd a] by blast
  have tns: "type \<noteq> ALLOC_SURVIVOR" using ty by auto
  have wf1: "wellFormed s1" using freeUnreferencedSegments_released [OF wf] f by auto
  have n1s: "states s1 n = None" using n wf_live [OF wf1] by simp
  note fr = scan_frame [OF wf f]
  let ?B = "born type s1"
  let ?seg0 = "\<lparr> id = nextSegmentId s1, isEmergencyHead = (type = ALLOC_EMERGENCY_HEAD),
                 cleanedEpoch = 0, segletsAllocated = segletsPerSegment (allocator s1),
                 entries = [], appendsDisabled = False \<rparr>"
  have b0: "segments ?B n = Some ?seg0" by (simp add: born_fields [OF tns] n)
  have keep: "segments ?B p = segments s p"
    if "states s p = Some st" "st \<noteq> FREEABLE_PENDING_REFERENCES" for p st
  proof -
    have "states s1 p = states s p" "segments s1 p = segments s p"
      using scan_keeps [OF wf f, of p] that by auto
    then have "p \<noteq> n" using n1s that by auto
    then show ?thesis using \<open>segments s1 p = segments s p\<close> by (simp add: born_fields [OF tns] n)
  qed
  have ids: "segmentIds ?B (segmentsByState s st) = segmentIds s (segmentsByState s st)"
    if "st \<noteq> FREEABLE_PENDING_REFERENCES" for st
    using keep that wf_mem [OF wf] by (intro segmentIds_cong) blast
  have lists: "segmentsByState ?B st = segmentsByState s st"
    if "st \<noteq> FREEABLE_PENDING_REFERENCES" "st \<noteq> HEAD" for st
    using that scan_list_other [OF wf f, of st] by (simp add: born_fields [OF tns])
  have pd: "(case headOf s of
               None \<Rightarrow> None
             | Some q \<Rightarrow> (case segments ?B q of
                            None \<Rightarrow> None
                          | Some sq \<Rightarrow> if isEmergencyHead sq then None else Some q)) = digestPrev s"
  proof (cases "headOf s")
    case None
    then show ?thesis by (simp add: digestPrev_def)
  next
    case (Some q)
    have "segments ?B q = segments s q"
      using keep [of q HEAD] headOf_Some [OF wf Some] by simp
    then show ?thesis using Some by (simp add: digestPrev_def)
  qed
  have pq: "segmentIds ?B [q] = segmentIds s [q]" if "digestPrev s = Some q" for q
  proof -
    have "headOf s = Some q" using that by (auto simp: digestPrev_def split: option.splits if_splits)
    then have "segments ?B q = segments s q"
      using keep [of q HEAD] headOf_Some [OF wf] by simp
    then show ?thesis by (intro segmentIds_cong) simp
  qed
  have c: "segmentIds ?B (segmentsByState ?B st) = segmentIds s (segmentsByState s st)"
    if "st \<noteq> FREEABLE_PENDING_REFERENCES" "st \<noteq> HEAD" for st
    using lists [OF that] ids [OF that(1)] by simp
  have c5: "segmentIds ?B [n] = [nextSegmentId s]"
    using b0 fr by (simp add: segmentIds_def List.map_filter_def)
  have c6: "(case digestPrev s of None \<Rightarrow> [] | Some q \<Rightarrow> segmentIds ?B [q])
            = (case digestPrev s of None \<Rightarrow> [] | Some q \<Rightarrow> segmentIds s [q])"
    using pq by (cases "digestPrev s") auto
  have cnt: "logIteratorCount ?B = logIteratorCount s"
    using fr by (simp add: born_fields [OF tns])
  have d: "digestIds ?B n (digestPrev s) = digestOf s"
    unfolding digestIds_def digestOf_def
    by (simp only: c [of CLEANABLE, simplified] c [of NEWLY_CLEANABLE, simplified]
                   c [of CLEANABLE_PENDING_DIGEST, simplified]
                   c [of FREEABLE_PENDING_DIGEST_AND_REFERENCES, simplified] c5 c6 cnt)
  obtain new :: LogSegment where nw: "segments (written n (headOf s) ?B) n = Some new"
    "id new = id ?seg0" "isEmergencyHead new = isEmergencyHead ?seg0"
    "entries new = entries ?seg0 @
             [LOG_ENTRY_TYPE_SEGHEADER (logId ?B) (id ?seg0) (segmentSize (allocator ?B))
                INVALID_SEGMENT_ID,
              LOG_ENTRY_TYPE_LOGDIGEST (digestIds ?B n
                (case headOf s of
                   None \<Rightarrow> None
                 | Some q \<Rightarrow> (case segments ?B q of
                                None \<Rightarrow> None
                              | Some sq \<Rightarrow> if isEmergencyHead sq then None else Some q)))]"
    using written_new [OF b0, of "headOf s"] by blast
  have em: "type = ALLOC_EMERGENCY_HEAD \<longleftrightarrow> (\<exists>s1. alloc ALLOC_HEAD s = Inr (None, s1))"
    using ty ma by (auto simp: alloc_eq [OF f] split: if_splits)
  show ?thesis
    using nw sn em unfolding pd d
    by (simp add: born_fields [OF tns] fr)
qed

lemma digestPrev_ids:
  assumes wf: "wellFormed s" and hd: "length (segmentsByState s HEAD) \<le> 1"
  shows "set (case digestPrev s of None \<Rightarrow> [] | Some q \<Rightarrow> segmentIds s [q]) =
           {i. \<exists>p seg. segments s p = Some seg \<and> id seg = i \<and> states s p = Some HEAD \<and>
                        \<not> isEmergencyHead seg}"
proof (cases "segmentsByState s HEAD")
  case Nil
  then have "\<And>p. states s p \<noteq> Some HEAD" using wf_mem [OF wf, of _ HEAD] by auto
  then show ?thesis using Nil by (simp add: digestPrev_def headOf_def)
next
  case (Cons q qs)
  then have l: "segmentsByState s HEAD = [q]" using hd by simp
  then have h: "\<And>p. states s p = Some HEAD \<longleftrightarrow> p = q" using wf_mem [OF wf, of _ HEAD] by auto
  have "states s q = Some HEAD" using h by simp
  then obtain sq where sq: "segments s q = Some sq"
    using wf_live [OF wf, of q] by (cases "segments s q") auto
  show ?thesis
    using l h sq by (auto simp: digestPrev_def headOf_def segmentIds_Cons)
qed

lemma digestOf_set:
  assumes wf: "wellFormed s" and hd: "length (segmentsByState s HEAD) \<le> 1"
  shows "set (digestOf s) =
     {i. i = nextSegmentId s \<or>
         (\<exists>p seg. segments s p = Some seg \<and> id seg = i \<and>
            (states s p = Some CLEANABLE \<or> states s p = Some NEWLY_CLEANABLE \<or>
             (logIteratorCount s = 0 \<and> states s p = Some CLEANABLE_PENDING_DIGEST) \<or>
             (states s p = Some HEAD \<and> \<not> isEmergencyHead seg) \<or>
             (logIteratorCount s \<noteq> 0 \<and>
                states s p = Some FREEABLE_PENDING_DIGEST_AND_REFERENCES)))}"
  unfolding digestOf_def set_append digestPrev_ids [OF wf hd]
  by (auto simp: set_segmentIds wf_mem [OF wf])

lemma digestPrev_state:
  assumes wf: "wellFormed s" and "digestPrev s = Some q"
  shows "states s q = Some HEAD"
  using assms headOf_Some [OF wf, of q]
  by (auto simp: digestPrev_def split: option.splits if_splits)

lemma digestOf_distinct:
  assumes wf: "wellFormed s" and ids: "idsOk s"
  shows "distinct (digestOf s)"
proof -
  let ?P = "case digestPrev s of None \<Rightarrow> [] | Some q \<Rightarrow> [q]"
  let ?A = "segmentsByState s CLEANABLE @ segmentsByState s NEWLY_CLEANABLE
            @ (if logIteratorCount s = 0 then segmentsByState s CLEANABLE_PENDING_DIGEST else [])
            @ ?P"
  let ?B = "if logIteratorCount s = 0 then []
            else segmentsByState s FREEABLE_PENDING_DIGEST_AND_REFERENCES"
  have dl: "\<And>st. distinct (segmentsByState s st)" using wf unfolding wellFormed_def by blast
  have dp: "distinct ?P" by (cases "digestPrev s") auto
  have mp: "\<And>p. p \<in> set ?P \<Longrightarrow> states s p = Some HEAD"
    using digestPrev_state [OF wf] by (cases "digestPrev s") auto
  have dAB: "distinct (?A @ ?B)"
    using dl dp mp by (auto simp: wf_mem [OF wf])
  have e: "digestOf s = segmentIds s ?A @ [nextSegmentId s] @ segmentIds s ?B"
    by (cases "digestPrev s") (simp_all add: digestOf_def segmentIds_append)
  have d1: "distinct (segmentIds s (?A @ ?B))" using ids dAB by (rule distinct_segmentIds)
  have ne: "id sp \<noteq> nextSegmentId s" if "segments s p = Some sp" for p sp
  proof -
    have "id sp < nextSegmentId s" using ids that unfolding idsOk_def by blast
    then show ?thesis by simp
  qed
  have nx: "nextSegmentId s \<notin> set (segmentIds s ps)" for ps
    using ne by (auto simp: set_segmentIds)
  show ?thesis
    unfolding e using d1 nx [of ?A] nx [of ?B]
    by (simp add: segmentIds_append)
qed

lemma afterCleaning_ids: "idsOk afterCleaning"
  unfolding idsOk_def afterCleaning_def by (auto split: if_splits)

section \<open>Cleaning\<close>

lemma transitioned_fields:
  "segments (transitioned p old new s) = segments s"
  "states (transitioned p old new s) = (states s)(p \<mapsto> new)"
  "st \<noteq> new \<Longrightarrow> segmentsByState (transitioned p old new s) st =
     (if st = old then remove1 p (segmentsByState s old) else segmentsByState s st)"
  "currentEpoch (transitioned p old new s) = currentEpoch s"
  "logIteratorCount (transitioned p old new s) = logIteratorCount s"
  "freeSlots (transitioned p old new s) = freeSlots s"
  "nextSegmentId (transitioned p old new s) = nextSegmentId s"
  by (simp_all add: transitioned_def)

lemma cleaningComplete_clean_props:
  assumes "wellFormed s" "cleaningComplete_clean e clean acc s = Inr (acc', s')"
  shows "wellFormed s' \<and>
         acc' = acc + sum_list (map (\<lambda>p. segletsAllocated (the (segments s p))) clean) \<and>
         (\<forall>p \<in> set clean. \<exists>seg. segments s p = Some seg \<and>
             segments s' p = Some (seg\<lparr> cleanedEpoch := e \<rparr>) \<and>
             states s' p = Some FREEABLE_PENDING_DIGEST_AND_REFERENCES) \<and>
         (\<forall>p. p \<notin> set clean \<longrightarrow> states s' p = states s p \<and> segments s' p = segments s p) \<and>
         (\<forall>st. st \<noteq> FREEABLE_PENDING_DIGEST_AND_REFERENCES \<longrightarrow>
             segmentsByState s' st = filter (\<lambda>p. p \<notin> set clean) (segmentsByState s st)) \<and>
         currentEpoch s' = currentEpoch s \<and> logIteratorCount s' = logIteratorCount s \<and>
         freeSlots s' = freeSlots s \<and> nextSegmentId s' = nextSegmentId s"
  using assms
proof (induction clean arbitrary: s acc)
  case Nil
  then show ?case by simp
next
  case (Cons p ps)
  note wf = Cons.prems(1)
  obtain seg where sg: "segments s p = Some seg"
    using Cons.prems(2) by (cases "segments s p") auto
  let ?s1 = "s\<lparr> segments := (segments s)(p \<mapsto> seg\<lparr> cleanedEpoch := e \<rparr>) \<rparr>"
  obtain old where old: "states s p = Some old"
    using wf_live [OF wf, of p] sg by (cases "states s p") auto
  then have old1: "states ?s1 p = Some old" by simp
  let ?s2 = "transitioned p old FREEABLE_PENDING_DIGEST_AND_REFERENCES ?s1"
  have wf1: "wellFormed ?s1" using wf sg by (intro wellFormed_touch) auto
  have wf2: "wellFormed ?s2" using wf1 old1 by (rule transitioned_wf)
  have rec: "cleaningComplete_clean e ps (acc + segletsAllocated seg) ?s2 = Inr (acc', s')"
    using Cons.prems(2) sg by (simp add: changeState_eq [OF old1] Let_def)
  note ih = Cons.IH [OF wf2 rec]
  have g2: "segments ?s2 = (segments s)(p \<mapsto> seg\<lparr> cleanedEpoch := e \<rparr>)"
    and t2: "states ?s2 = (states s)(p \<mapsto> FREEABLE_PENDING_DIGEST_AND_REFERENCES)"
    by (simp_all add: transitioned_fields)
  have sa: "segletsAllocated (the (segments ?s2 q)) = segletsAllocated (the (segments s q))" for q
    using sg by (simp add: g2)
  have sum: "acc' = acc + sum_list (map (\<lambda>p. segletsAllocated (the (segments s p))) (p # ps))"
    using ih sg unfolding sa by (simp add: add.assoc)
  have inl: "\<exists>sq. segments s q = Some sq \<and> segments s' q = Some (sq\<lparr> cleanedEpoch := e \<rparr>) \<and>
               states s' q = Some FREEABLE_PENDING_DIGEST_AND_REFERENCES"
    if "q \<in> set (p # ps)" for q
  proof (cases "q \<in> set ps")
    case True
    then obtain s2q :: LogSegment where 1: "segments ?s2 q = Some s2q"
      "segments s' q = Some (s2q\<lparr> cleanedEpoch := e \<rparr>)"
      "states s' q = Some FREEABLE_PENDING_DIGEST_AND_REFERENCES"
      using ih by blast
    show ?thesis
    proof (cases "q = p")
      case True
      then show ?thesis using 1 sg by (auto simp: g2)
    next
      case False
      then show ?thesis using 1 by (auto simp: g2)
    qed
  next
    case False
    then have "q = p" using that by simp
    moreover have "states s' p = states ?s2 p" "segments s' p = segments ?s2 p"
      using ih False \<open>q = p\<close> by auto
    ultimately show ?thesis using sg by (simp add: g2 t2)
  qed
  have out: "states s' q = states s q \<and> segments s' q = segments s q" if "q \<notin> set (p # ps)" for q
  proof -
    have "states s' q = states ?s2 q" "segments s' q = segments ?s2 q"
      using ih that by auto
    then show ?thesis using that by (simp add: g2 t2)
  qed
  have dl: "distinct (segmentsByState s st)" for st using wf unfolding wellFormed_def by blast
  have lst: "segmentsByState s' st = filter (\<lambda>q. q \<notin> set (p # ps)) (segmentsByState s st)"
    if ne: "st \<noteq> FREEABLE_PENDING_DIGEST_AND_REFERENCES" for st
  proof -
    have 1: "segmentsByState s' st = filter (\<lambda>q. q \<notin> set ps) (segmentsByState ?s2 st)"
      using ih ne by blast
    show ?thesis
    proof (cases "st = old")
      case True
      have "segmentsByState ?s2 st = remove1 p (segmentsByState s st)"
        using ne True by (simp add: transitioned_fields)
      then show ?thesis
        unfolding 1 using dl [of st]
        by (simp add: filter_remove1_distinct conj_commute cong: filter_cong)
    next
      case False
      have 2: "segmentsByState ?s2 st = segmentsByState s st"
        using ne False by (simp add: transitioned_fields)
      have "p \<notin> set (segmentsByState s st)" using wf_mem [OF wf, of p st] old False by auto
      then show ?thesis unfolding 1 2 by (auto intro!: filter_cong)
    qed
  qed
  have fr: "currentEpoch s' = currentEpoch s" "logIteratorCount s' = logIteratorCount s"
    "freeSlots s' = freeSlots s" "nextSegmentId s' = nextSegmentId s"
    using ih by (simp_all add: transitioned_fields)
  show ?case
    using ih sum inl out lst fr by blast
qed






section \<open>Every operation ends\<close>

text \<open>From a well-formed state the loops that drain a list terminate, so the operations
  that contain them end: they return or they end with an error.\<close>

lemma writeDigest_ends:
  assumes wf: "wellFormed s"
  shows "writeDigest fits n prev s \<noteq> None"
  unfolding writeDigest_eq [OF wf] by (simp split: option.splits)

lemma allocHead_install_ends:
  assumes wf: "wellFormed s"
  shows "allocHead_install fits prev n s \<noteq> None"
proof (cases "writeHeader fits n INVALID_SEGMENT_ID s")
  case (Inl e)
  then show ?thesis by (simp add: allocHead_install_def)
next
  case (Inr s1)
  then obtain x where s1: "s1 = s\<lparr> segments := (segments s)(n \<mapsto> x) \<rparr>"
    and live: "segments s n \<noteq> None"
    by (auto simp: writeHeader_def Let_def split: option.splits)
  have wf1: "wellFormed s1" unfolding s1 using wf live by (rule wellFormed_touch)
  have wd: "writeDigest fits n pd s1 \<noteq> None" for pd using wf1 by (rule writeDigest_ends)
  show ?thesis
  proof (cases prev)
    case None
    obtain y where y: "writeDigest fits n None s1 = Some y" using wd [of None] by blast
    show ?thesis
      by (simp add: allocHead_install_def Inr None y Let_def split: sum.splits option.splits)
  next
    case (Some q)
    show ?thesis
    proof (cases "segments s1 q")
      case None
      then show ?thesis by (simp add: allocHead_install_def Inr Some)
    next
      case sq: (Some prevSeg)
      obtain y where y: "writeDigest fits n (if \<not> isEmergencyHead prevSeg then Some q else None) s1
                           = Some y"
        using wd [of "if \<not> isEmergencyHead prevSeg then Some q else None"] by blast
      show ?thesis
        by (simp add: allocHead_install_def Inr Some sq y Let_def
                 split: sum.splits option.splits)
    qed
  qed
qed

lemma allocHead_ends:
  assumes wf: "wellFormed s"
  shows "allocHead fits m s \<noteq> None"
proof -
  obtain s1 where f: "freeUnreferencedSegments s = Inr s1" and wf1: "wellFormed s1"
    using freeUnreferencedSegments_released [OF wf] by blast
  note f1 = freeUnreferencedSegments_idem [OF wf f]
  have I: "allocHead_install fits prev (last (freeSlots s1)) (born type s1) \<noteq> None"
    if "mayAlloc type s1 = Inr True" for type prev
    using born_wf [OF wf1 mayAlloc_True_freeSlots [OF that]] by (rule allocHead_install_ends)
  show ?thesis
  proof (cases "getHeadSegment s")
    case (Inl e)
    then show ?thesis by (simp add: allocHead_def)
  next
    case (Inr prevHead)
    show ?thesis
    proof (cases "mayAlloc ALLOC_HEAD s1")
      case (Inl e)
      then show ?thesis by (simp add: allocHead_def Inr alloc_eq [OF f])
    next
      case b: (Inr b)
      show ?thesis
      proof (cases b)
        case True
        then show ?thesis using I [of ALLOC_HEAD prevHead] b
          by (simp add: allocHead_def Inr alloc_eq [OF f])
      next
        case False
        show ?thesis
        proof (cases "mayAlloc ALLOC_EMERGENCY_HEAD s1")
          case (Inl e)
          then show ?thesis using b False
            by (simp add: allocHead_def Inr alloc_eq [OF f] alloc_eq [OF f1])
        next
          case e: (Inr b')
          then show ?thesis using b False I [of ALLOC_EMERGENCY_HEAD prevHead]
            by (cases b') (simp_all add: allocHead_def Inr alloc_eq [OF f] alloc_eq [OF f1])
        qed
      qed
    qed
  qed
qed

lemma cleanableSegments_ends:
  assumes wf: "wellFormed s"
  shows "cleanableSegments out s \<noteq> None"
  using drain_eq [OF wf, of NEWLY_CLEANABLE CLEANABLE "\<lambda>p seg out. out @ [p]" out]
  by (simp add: cleanableSegments_def)

section \<open>The head invariant\<close>

lemma new_inv:
  assumes "SegmentManager_new lid a below maxSegs e0 e1 = Inr s"
  shows "headInvariant s"
  using assms
  by (auto simp: SegmentManager_new_def Let_def headInvariant_def wellFormed_def split: if_splits)

lemma allocHead_heads:
  assumes i: "headInvariant s" and a: "allocHead fits m s = Some (Inr (Some n, s'))"
  shows "wellFormed s' \<and> segmentsByState s' HEAD = [n] \<and>
         (\<forall>q sq. states s q = Some HEAD \<and> segments s q = Some sq \<longrightarrow>
            (isEmergencyHead sq \<longrightarrow> segments s' q = None \<and> states s' q = None) \<and>
            (\<not> isEmergencyHead sq \<longrightarrow> states s' q = Some NEWLY_CLEANABLE))"
proof -
  have wf: "wellFormed s" and hd: "length (segmentsByState s HEAD) \<le> 1"
    using i by (auto simp: headInvariant_def)
  obtain s1 :: SegmentManager and W where wf': "wellFormed s'"
    and hW: "segmentsByState W HEAD = segmentsByState s HEAD @ [n]"
    and fin: "case headOf s of
            None \<Rightarrow> s' = W
          | Some q \<Rightarrow>
              q \<noteq> n \<and> segmentsByState s HEAD = [q] \<and>
              (\<exists>sq. segments s q = Some sq \<and> segments s1 q = Some sq \<and>
                 (isEmergencyHead sq \<longrightarrow> free q W = Inr s' \<and> released [q] W s') \<and>
                 (\<not> isEmergencyHead sq \<longrightarrow> s' = transitioned q HEAD NEWLY_CLEANABLE W))"
    using allocHead_final [OF wf hd a] by blast
  show ?thesis
  proof (cases "headOf s")
    case None
    then have e: "segmentsByState s HEAD = []"
      by (cases "segmentsByState s HEAD") (auto simp: headOf_def)
    then have "\<And>q. states s q \<noteq> Some HEAD" using wf_mem [OF wf, of _ HEAD] by auto
    then show ?thesis using fin None hW e wf' by simp
  next
    case q: (Some q)
    then have qn: "q \<noteq> n" and l: "segmentsByState s HEAD = [q]"
      and ex: "\<exists>sq :: LogSegment. segments s q = Some sq \<and>
                 (isEmergencyHead sq \<longrightarrow> released [q] W s') \<and>
                 (\<not> isEmergencyHead sq \<longrightarrow> s' = transitioned q HEAD NEWLY_CLEANABLE W)"
      using fin by auto
    obtain sq :: LogSegment where sq: "segments s q = Some sq"
      and c: "isEmergencyHead sq \<longrightarrow> released [q] W s'"
        "\<not> isEmergencyHead sq \<longrightarrow> s' = transitioned q HEAD NEWLY_CLEANABLE W"
      using ex by blast
    have only: "p = q" if "states s p = Some HEAD" for p
      using that wf_mem [OF wf, of p HEAD] l by simp
    show ?thesis
    proof (cases "isEmergencyHead sq")
      case True
      then have r: "released [q] W s'" using c by simp
      have "segmentsByState s' HEAD = [n]" using r hW l qn by (simp add: released_def)
      moreover have "segments s' q = None" "states s' q = None"
        using r by (simp_all add: released_def)
      ultimately show ?thesis using wf' True sq only by auto
    next
      case False
      then have t: "s' = transitioned q HEAD NEWLY_CLEANABLE W" using c by simp
      have "segmentsByState s' HEAD = [n]" using t hW l qn by (simp add: transitioned_fields)
      moreover have "states s' q = Some NEWLY_CLEANABLE"
        using t by (simp add: transitioned_fields)
      ultimately show ?thesis using wf' False sq only by auto
    qed
  qed
qed

lemma allocHead_inv:
  assumes i: "headInvariant s" and a: "allocHead fits m s = Some (Inr (r, s'))"
  shows "headInvariant s'"
proof -
  have wf: "wellFormed s" and hd: "length (segmentsByState s HEAD) \<le> 1"
    using i by (auto simp: headInvariant_def)
  show ?thesis
  proof (cases r)
    case None
    have f: "freeUnreferencedSegments s = Inr s'"
      using allocHead_absent_cases [OF wf] a None by blast
    have "wellFormed s'" using freeUnreferencedSegments_released [OF wf] f by auto
    moreover have "segmentsByState s' HEAD = segmentsByState s HEAD"
      using scan_list_other [OF wf f] by simp
    ultimately show ?thesis using hd by (simp add: headInvariant_def)
  next
    case (Some n)
    then have "allocHead fits m s = Some (Inr (Some n, s'))" using a by simp
    then show ?thesis using allocHead_heads [OF i] by (simp add: headInvariant_def)
  qed
qed

lemma wellFormed_replicaLog [simp]: "wellFormed (s\<lparr> replicaLog := l \<rparr>) = wellFormed s"
  by (simp add: wellFormed_def)

lemma wellFormed_frame [simp]:
  "wellFormed (s\<lparr> logIteratorCount := c \<rparr>) = wellFormed s"
  "wellFormed (s\<lparr> numSurvivorSegments := n \<rparr>) = wellFormed s"
  "wellFormed (s\<lparr> currentEpoch := e \<rparr>) = wellFormed s"
  "wellFormed (s\<lparr> earliestOutstandingEpoch := e' \<rparr>) = wellFormed s"
  by (simp_all add: wellFormed_def)

lemma allocSurvivor_inv:
  assumes i: "headInvariant s" and a: "allocSurvivor fits h s = Inr (r, s')"
  shows "headInvariant s'"
proof -
  have wf: "wellFormed s" and hd: "length (segmentsByState s HEAD) \<le> 1"
    using i by (auto simp: headInvariant_def)
  obtain s1 where f: "freeUnreferencedSegments s = Inr s1" and wf1: "wellFormed s1"
    using freeUnreferencedSegments_released [OF wf] by blast
  have h1: "segmentsByState s1 HEAD = segmentsByState s HEAD"
    using scan_list_other [OF wf f] by simp
  show ?thesis
  proof (cases r)
    case None
    then have "s' = s1"
      using a by (auto simp: allocSurvivor_def alloc_eq [OF f] writeHeader_def Let_def
                       split: sum.splits bool.splits if_splits option.splits)
    then show ?thesis using wf1 h1 hd by (simp add: headInvariant_def)
  next
    case (Some p)
    let ?B = "born ALLOC_SURVIVOR s1"
    have ma: "mayAlloc ALLOC_SURVIVOR s1 = Inr True"
      using a Some by (auto simp: allocSurvivor_def alloc_eq [OF f] writeHeader_def Let_def
                       split: sum.splits bool.splits if_splits option.splits)
    have wfB: "wellFormed ?B" using wf1 mayAlloc_True_freeSlots [OF ma] by (rule born_wf)
    have hB: "segmentsByState ?B HEAD = segmentsByState s HEAD"
      using h1 by (simp add: born_def Let_def)
    obtain x l where s': "s' = ?B\<lparr> segments := (segments ?B)(p \<mapsto> x), replicaLog := l \<rparr>"
      and live: "segments ?B p \<noteq> None"
      using a Some ma
      by (auto simp: allocSurvivor_def alloc_eq [OF f] writeHeader_def Let_def
               split: sum.splits bool.splits if_splits option.splits)
    have "wellFormed (?B\<lparr> segments := (segments ?B)(p \<mapsto> x) \<rparr>)"
      using wfB live by (rule wellFormed_touch)
    then show ?thesis using hB hd unfolding s' by (simp add: headInvariant_def)
  qed
qed

lemma cleaningComplete_inv:
  assumes i: "headInvariant s" and a: "cleaningComplete clean s = Some (Inr s')"
  shows "headInvariant s'"
proof -
  have wf: "wellFormed s" and hd: "length (segmentsByState s HEAD) \<le> 1"
    using i by (auto simp: headInvariant_def)
  let ?M = "moved CLEANING_INTO CLEANABLE_PENDING_DIGEST s"
  let ?M2 = "?M\<lparr> currentEpoch := currentEpoch s + 1 \<rparr>"
  have d: "drain CLEANING_INTO CLEANABLE_PENDING_DIGEST
             (\<lambda>p seg segletsUsed. segletsUsed + segletsAllocated seg) (0 :: 32 word) s
           = Some (Inr (fold (\<lambda>p. (\<lambda>p seg segletsUsed. segletsUsed + segletsAllocated seg) p
                                 (the (segments s p))) (segmentsByState s CLEANING_INTO) 0, ?M))"
    using wf by (intro drain_eq) simp_all
  have wfM2: "wellFormed ?M2" using moved_wf [OF wf, of CLEANING_INTO CLEANABLE_PENDING_DIGEST] by simp
  obtain freed where cl: "cleaningComplete_clean (currentEpoch s) clean 0 ?M2 = Inr (freed, s')"
    using a
    by (auto simp: cleaningComplete_def d incrementCurrentEpoch_def moved_def Let_def
             split: sum.splits if_splits)
  note p = cleaningComplete_clean_props [OF wfM2 cl]
  have "segmentsByState s' HEAD = filter (\<lambda>p. p \<notin> set clean) (segmentsByState s HEAD)"
    using p by (simp add: moved_def)
  then have "length (segmentsByState s' HEAD) \<le> length (segmentsByState s HEAD)" by simp
  then show ?thesis using p hd by (simp add: headInvariant_def)
qed

lemma cleanableSegments_inv:
  assumes i: "headInvariant s" and a: "cleanableSegments out s = Some (Inr (r, s'))"
  shows "headInvariant s'"
proof -
  have wf: "wellFormed s" and hd: "length (segmentsByState s HEAD) \<le> 1"
    using i by (auto simp: headInvariant_def)
  have "s' = moved NEWLY_CLEANABLE CLEANABLE s"
    using a drain_eq [OF wf, of NEWLY_CLEANABLE CLEANABLE "\<lambda>p seg out. out @ [p]" out]
    by (simp add: cleanableSegments_def)
  then show ?thesis
    using moved_wf [OF wf, of NEWLY_CLEANABLE CLEANABLE] hd
    by (simp add: headInvariant_def moved_list_other)
qed

lemma call_inv:
  assumes "headInvariant s" "call fits c s = Some s'"
  shows "headInvariant s'"
proof (cases c)
  case (AllocHead m)
  then show ?thesis using assms allocHead_inv
    by (auto split: option.splits sum.splits)
next
  case (AllocSurvivor h)
  then show ?thesis using assms allocSurvivor_inv
    by (auto split: option.splits sum.splits)
next
  case (CleaningComplete clean)
  then show ?thesis using assms cleaningComplete_inv
    by (auto split: option.splits sum.splits)
next
  case (CleanableSegments out)
  then show ?thesis using assms cleanableSegments_inv
    by (auto split: option.splits sum.splits)
next
  case LogIteratorCreated
  then show ?thesis using assms by (auto simp: headInvariant_def logIteratorCreated_def)
next
  case LogIteratorDestroyed
  then show ?thesis using assms by (auto simp: headInvariant_def logIteratorDestroyed_def)
next
  case (IncreaseSurvivorReserve n)
  then show ?thesis using assms
    by (auto simp: headInvariant_def increaseSurvivorReserve_def split: if_splits)
next
  case (RpcEpochs e e')
  then show ?thesis using assms by (auto simp: headInvariant_def wellFormed_def)
qed

lemma reachable_inv: "reachable s \<Longrightarrow> headInvariant s"
  by (induction rule: reachable.induct) (auto intro: new_inv call_inv)

section \<open>Iteration\<close>

lemma duringIteration_wf: "wellFormed duringIteration"
  using afterCleaning_wf by (simp add: duringIteration_def)

lemma duringIteration_reachable: "reachable duringIteration"
proof -
  have "call anyFits LogIteratorCreated afterCleaning = Some duringIteration"
    by (simp add: logIteratorCreated_def duringIteration_def afterCleaning_def)
  then show ?thesis using afterCleaning_reachable by (rule reachable.called [rotated])
qed

lemma writeDigest_iterating:
  assumes wf: "wellFormed s" and c: "logIteratorCount s \<noteq> 0"
    and w: "writeDigest fits n prev s = Some (Inr s')"
  shows "states s' = states s" "segmentsByState s' = segmentsByState s"
  using w c unfolding writeDigest_eq [OF wf]
  by (auto simp: digested_def split: option.splits)

lemma scan_states:
  assumes wf: "wellFormed s" and f: "freeUnreferencedSegments s = Inr s1"
  shows "states s1 p = states s p \<or>
         states s p = Some FREEABLE_PENDING_REFERENCES \<and> states s1 p = None"
    and "logIteratorCount s1 = logIteratorCount s"
proof -
  let ?F = "filter (unreferenced (earliestOutstandingEpoch s) s)
              (segmentsByState s FREEABLE_PENDING_REFERENCES)"
  have r: "released ?F s s1"
    using freeUnreferencedSegments_released [OF wf] f by auto
  show "states s1 p = states s p \<or>
         states s p = Some FREEABLE_PENDING_REFERENCES \<and> states s1 p = None"
    using r wf_mem [OF wf, of p FREEABLE_PENDING_REFERENCES] by (auto simp: released_def)
  show "logIteratorCount s1 = logIteratorCount s" using r by (simp add: released_def)
qed

lemma allocHead_iterating:
  assumes i: "headInvariant s" and c: "logIteratorCount s \<noteq> 0"
    and a: "allocHead fits m s = Some (Inr (r, s'))"
  shows "states s' p = Some FREEABLE_PENDING_REFERENCES \<longrightarrow>
           states s p = Some FREEABLE_PENDING_REFERENCES"
    and "states s p = Some CLEANABLE_PENDING_DIGEST \<longrightarrow>
           states s' p = Some CLEANABLE_PENDING_DIGEST"
    and "states s p = Some FREEABLE_PENDING_DIGEST_AND_REFERENCES \<longrightarrow>
           states s' p = Some FREEABLE_PENDING_DIGEST_AND_REFERENCES"
proof -
  have wf: "wellFormed s" and hd: "length (segmentsByState s HEAD) \<le> 1"
    using i by (auto simp: headInvariant_def)
  have "(states s' p = Some FREEABLE_PENDING_REFERENCES \<longrightarrow>
           states s p = Some FREEABLE_PENDING_REFERENCES) \<and>
        (states s p = Some CLEANABLE_PENDING_DIGEST \<longrightarrow>
           states s' p = Some CLEANABLE_PENDING_DIGEST) \<and>
        (states s p = Some FREEABLE_PENDING_DIGEST_AND_REFERENCES \<longrightarrow>
           states s' p = Some FREEABLE_PENDING_DIGEST_AND_REFERENCES)"
  proof (cases r)
    case None
    have f: "freeUnreferencedSegments s = Inr s'"
      using allocHead_absent_cases [OF wf] a None by blast
    show ?thesis using scan_states(1) [OF wf f, of p] by auto
  next
    case (Some n)
    then have a': "allocHead fits m s = Some (Inr (Some n, s'))" using a by simp
    from allocHead_final [OF wf hd a']
    obtain s1 :: SegmentManager and type W where
          f: "freeUnreferencedSegments s = Inr s1"
      and "wellFormed s1"
      and "mayAlloc type s1 = Inr True"
      and ty0: "type = ALLOC_HEAD \<or>
         type = ALLOC_EMERGENCY_HEAD \<and> mayAlloc ALLOC_HEAD s1 = Inr False \<and>
         (m \<or> segmentsByState s1 FREEABLE_PENDING_DIGEST_AND_REFERENCES \<noteq> [])"
      and n: "n = last (freeSlots s1)"
      and "segments s1 n = None"
      and nn: "states s1 n = None"
      and "wellFormed (born type s1)"
      and W: "W = written n (headOf s) (born type s1)"
      and "wellFormed W"
      and "segmentsByState W HEAD = segmentsByState s HEAD @ [n]"
      and fin: "case headOf s of
              None \<Rightarrow> s' = W
            | Some q \<Rightarrow>
                q \<noteq> n \<and> segmentsByState s HEAD = [q] \<and>
                (\<exists>sq. segments s q = Some sq \<and> segments s1 q = Some sq \<and>
                   (isEmergencyHead sq \<longrightarrow> free q W = Inr s' \<and> released [q] W s') \<and>
                   (\<not> isEmergencyHead sq \<longrightarrow> s' = transitioned q HEAD NEWLY_CLEANABLE W))"
      and "wellFormed s'"
      by (elim exE conjE) (rule that; assumption)
    have ty: "type = ALLOC_HEAD \<or> type = ALLOC_EMERGENCY_HEAD" using ty0 by blast
    have ts: "type \<noteq> ALLOC_SURVIVOR" using ty by auto
    have "logIteratorCount (born type s1) = logIteratorCount s"
      using scan_states(2) [OF wf f] born_fields(4) [OF ts, of s1] by simp
    then have cB: "logIteratorCount (born type s1) \<noteq> 0" using c by simp
    have dB: "digested (born type s1) = born type s1" using cB by (simp add: digested_def)
    have "states W = states (digested (born type s1))" unfolding W by (rule written_fields(1))
    also have "\<dots> = (states s1)(n \<mapsto> HEAD)"
      unfolding dB n by (rule born_fields(1) [OF ts])
    finally have sW: "states W = (states s1)(n \<mapsto> HEAD)" .
    have Wp: "states W p = (if p = n then Some HEAD else states s1 p)" unfolding sW by simp
    note sc = scan_states(1) [OF wf f, of p]
    have K: "states s' p = states W p \<or>
             states s p = Some HEAD \<and> (states s' p = None \<or> states s' p = Some NEWLY_CLEANABLE)"
    proof (cases "headOf s")
      case None
      then show ?thesis using fin by simp
    next
      case q: (Some q)
      then have l: "segmentsByState s HEAD = [q]"
        and ex: "\<exists>sq :: LogSegment.
                   (isEmergencyHead sq \<longrightarrow> released [q] W s') \<and>
                   (\<not> isEmergencyHead sq \<longrightarrow> s' = transitioned q HEAD NEWLY_CLEANABLE W)"
        using fin by auto
      have hq: "states s q = Some HEAD" using wf_mem [OF wf, of q HEAD] l by simp
      obtain sq :: LogSegment where cs: "isEmergencyHead sq \<longrightarrow> released [q] W s'"
          "\<not> isEmergencyHead sq \<longrightarrow> s' = transitioned q HEAD NEWLY_CLEANABLE W"
        using ex by blast
      show ?thesis
      proof (cases "p = q")
        case pq: True
        show ?thesis
        proof (cases "isEmergencyHead sq")
          case True
          then have "released [q] W s'" using cs by simp
          then have "states s' = (\<lambda>p. if p \<in> set [q] then None else states W p)"
            unfolding released_def by (rule conjunct1 [OF conjunct2])
          then have "states s' q = None" by simp
          then show ?thesis using hq pq by simp
        next
          case False
          then have "s' = transitioned q HEAD NEWLY_CLEANABLE W" using cs by simp
          then have "states s' q = Some NEWLY_CLEANABLE" by (simp add: transitioned_fields(2))
          then show ?thesis using hq pq by simp
        qed
      next
        case pq: False
        show ?thesis
        proof (cases "isEmergencyHead sq")
          case True
          then have "released [q] W s'" using cs by simp
          then have "states s' p = states W p" using pq released_keeps(1) [of "[q]" W s' p] by simp
          then show ?thesis by simp
        next
          case False
          then have "s' = transitioned q HEAD NEWLY_CLEANABLE W" using cs by simp
          then have "states s' p = states W p" using pq by (simp add: transitioned_fields(2))
          then show ?thesis by simp
        qed
      qed
    qed
    show ?thesis
    proof (cases "p = n")
      case True
      then have "states s1 p = None" "states W p = Some HEAD" using nn Wp by simp_all
      then show ?thesis using K sc by auto
    next
      case False
      then have "states W p = states s1 p" using Wp by simp
      then show ?thesis using K sc by auto
    qed
  qed
  then show "states s' p = Some FREEABLE_PENDING_REFERENCES \<longrightarrow>
           states s p = Some FREEABLE_PENDING_REFERENCES"
    and "states s p = Some CLEANABLE_PENDING_DIGEST \<longrightarrow>
           states s' p = Some CLEANABLE_PENDING_DIGEST"
    and "states s p = Some FREEABLE_PENDING_DIGEST_AND_REFERENCES \<longrightarrow>
           states s' p = Some FREEABLE_PENDING_DIGEST_AND_REFERENCES"
    by blast+
qed


lemma allocSurvivor_enters:
  assumes wf: "wellFormed s" and a: "allocSurvivor fits h s = Inr (r, s')"
    and p: "states s' p = Some FREEABLE_PENDING_REFERENCES"
  shows "states s p = Some FREEABLE_PENDING_REFERENCES"
proof -
  obtain s1 where f: "freeUnreferencedSegments s = Inr s1"
    using freeUnreferencedSegments_released [OF wf] by blast
  note sc = scan_states(1) [OF wf f, of p]
  have "states s' = states s1 \<or> states s' = states (born ALLOC_SURVIVOR s1)"
    using a by (auto simp: allocSurvivor_def alloc_eq [OF f] writeHeader_def Let_def
                     split: sum.splits bool.splits if_splits option.splits)
  then have "states s1 p = Some FREEABLE_PENDING_REFERENCES"
    using p by (auto simp: born_def Let_def split: if_splits)
  then show ?thesis using sc by auto
qed

lemma cleaningComplete_enters:
  assumes wf: "wellFormed s" and a: "cleaningComplete clean s = Some (Inr s')"
    and p: "states s' p = Some FREEABLE_PENDING_REFERENCES"
  shows "states s p = Some FREEABLE_PENDING_REFERENCES"
proof -
  let ?M = "moved CLEANING_INTO CLEANABLE_PENDING_DIGEST s"
  let ?M2 = "?M\<lparr> currentEpoch := currentEpoch s + 1 \<rparr>"
  have d: "drain CLEANING_INTO CLEANABLE_PENDING_DIGEST
             (\<lambda>p seg segletsUsed. segletsUsed + segletsAllocated seg) (0 :: 32 word) s
           = Some (Inr (fold (\<lambda>p. (\<lambda>p seg segletsUsed. segletsUsed + segletsAllocated seg) p
                                 (the (segments s p))) (segmentsByState s CLEANING_INTO) 0, ?M))"
    using wf by (intro drain_eq) simp_all
  have wfM2: "wellFormed ?M2" using moved_wf [OF wf, of CLEANING_INTO CLEANABLE_PENDING_DIGEST] by simp
  obtain freed where cl: "cleaningComplete_clean (currentEpoch s) clean 0 ?M2 = Inr (freed, s')"
    using a
    by (auto simp: cleaningComplete_def d incrementCurrentEpoch_def moved_def Let_def
             split: sum.splits if_splits)
  note pr = cleaningComplete_clean_props [OF wfM2 cl]
  have nin: "p \<notin> set clean" using pr p by auto
  then have "states s' p = states ?M p" using pr by simp
  then show ?thesis using p moved_states [OF wf, of CLEANING_INTO CLEANABLE_PENDING_DIGEST p]
    by (auto split: if_splits)
qed

lemma cleanableSegments_enters:
  assumes wf: "wellFormed s" and a: "cleanableSegments out s = Some (Inr (r, s'))"
    and p: "states s' p = Some FREEABLE_PENDING_REFERENCES"
  shows "states s p = Some FREEABLE_PENDING_REFERENCES"
proof -
  have "s' = moved NEWLY_CLEANABLE CLEANABLE s"
    using a drain_eq [OF wf, of NEWLY_CLEANABLE CLEANABLE "\<lambda>p seg out. out @ [p]" out]
    by (simp add: cleanableSegments_def)
  then show ?thesis using p moved_states [OF wf, of NEWLY_CLEANABLE CLEANABLE p]
    by (auto split: if_splits)
qed

lemma call_enters:
  assumes i: "headInvariant s" and c: "logIteratorCount s \<noteq> 0"
    and a: "call fits cl s = Some s'"
    and p: "states s' p = Some FREEABLE_PENDING_REFERENCES"
  shows "states s p = Some FREEABLE_PENDING_REFERENCES"
proof -
  have wf: "wellFormed s" using i by (simp add: headInvariant_def)
  show ?thesis
  proof (cases cl)
    case (AllocHead m)
    then show ?thesis using a p allocHead_iterating(1) [OF i c]
      by (auto split: option.splits sum.splits)
  next
    case (AllocSurvivor h)
    then show ?thesis using a p allocSurvivor_enters [OF wf]
      by (auto split: option.splits sum.splits)
  next
    case (CleaningComplete clean)
    then show ?thesis using a p cleaningComplete_enters [OF wf]
      by (auto split: option.splits sum.splits)
  next
    case (CleanableSegments out)
    then show ?thesis using a p cleanableSegments_enters [OF wf]
      by (auto split: option.splits sum.splits)
  next
    case LogIteratorCreated
    then show ?thesis using a p by (auto simp: logIteratorCreated_def)
  next
    case LogIteratorDestroyed
    then show ?thesis using a p by (auto simp: logIteratorDestroyed_def)
  next
    case (IncreaseSurvivorReserve n)
    then show ?thesis using a p by (auto simp: increaseSurvivorReserve_def split: if_splits)
  next
    case (RpcEpochs e e')
    then show ?thesis using a p by auto
  qed
qed

lemma whileIterating_enters:
  assumes "headInvariant s" "whileIterating fits cs s = Some t"
    "states t p = Some FREEABLE_PENDING_REFERENCES"
  shows "states s p = Some FREEABLE_PENDING_REFERENCES"
  using assms
proof (induction cs arbitrary: s)
  case Nil
  then show ?case by simp
next
  case (Cons c cs)
  from Cons.prems(2) obtain s' where c: "0 < logIteratorCount s"
    and a: "call fits c s = Some s'" and w: "whileIterating fits cs s' = Some t"
    by (auto split: if_splits option.splits)
  have "headInvariant s'" using Cons.prems(1) a by (rule call_inv)
  then have "states s' p = Some FREEABLE_PENDING_REFERENCES"
    using w Cons.prems(3) by (rule Cons.IH)
  then show ?case using call_enters [OF Cons.prems(1) _ a] c by simp
qed

section \<open>The claims\<close>

text \<open>C8. For every allocation type, whenever \<open>mayAlloc\<close> decides (none of its
  assertions fails): \<open>EMERGENCY_HEAD\<close> is permitted; \<open>SURVIVOR\<close> is permitted if and only
  if \<open>numSurvivorSegmentsAlloced < numSurvivorSegments\<close>; \<open>HEAD\<close> is permitted if and only if
  the free segment count of the allocator is strictly greater than the sum of the unallocated
  emergency-head reserve and the unallocated survivor reserve, as integers.\<close>

theorem mayAlloc_admission:
  assumes "mayAlloc type s = Inr b"
  shows "b \<longleftrightarrow>
     (case type of
        ALLOC_EMERGENCY_HEAD \<Rightarrow> True
      | ALLOC_SURVIVOR \<Rightarrow> numSurvivorSegmentsAlloced s < numSurvivorSegments s
      | ALLOC_HEAD \<Rightarrow>
          uint (freeSegmentCount (allocator s)) >
            (uint (numEmergencyHeads s) - uint (numEmergencyHeadsAlloced s))
            + (uint (numSurvivorSegments s) - uint (numSurvivorSegmentsAlloced s)))"
proof -
  note r = mayAlloc_Inr [OF assms]
  have e: "int (unat (numEmergencyHeads s - numEmergencyHeadsAlloced s))
           = int (unat (numEmergencyHeads s)) - int (unat (numEmergencyHeadsAlloced s))"
    using r by (intro uint_reserve) simp
  have v: "int (unat (numSurvivorSegments s - numSurvivorSegmentsAlloced s))
           = int (unat (numSurvivorSegments s)) - int (unat (numSurvivorSegmentsAlloced s))"
    using r by (intro uint_reserve) simp
  have "unat (numSurvivorSegments s - numSurvivorSegmentsAlloced s) \<noteq> 0
        \<longleftrightarrow> 0 < int (unat (numSurvivorSegments s - numSurvivorSegmentsAlloced s))"
    by linarith
  also have "\<dots> \<longleftrightarrow> unat (numSurvivorSegmentsAlloced s) < unat (numSurvivorSegments s)"
    unfolding v by linarith
  finally have sv: "unat (numSurvivorSegments s - numSurvivorSegmentsAlloced s) \<noteq> 0
            \<longleftrightarrow> numSurvivorSegmentsAlloced s < numSurvivorSegments s"
    unfolding word_less_nat_alt .
  have hd: "unat (freeSegmentCount (allocator s)) >
              unat (numEmergencyHeads s - numEmergencyHeadsAlloced s)
              + unat (numSurvivorSegments s - numSurvivorSegmentsAlloced s)
            \<longleftrightarrow> uint (freeSegmentCount (allocator s)) >
                  (uint (numEmergencyHeads s) - uint (numEmergencyHeadsAlloced s))
                  + (uint (numSurvivorSegments s) - uint (numSurvivorSegmentsAlloced s))"
    unfolding uint_nat using e v by linarith
  show ?thesis
  proof (cases type)
    case ALLOC_HEAD
    then show ?thesis using r hd by simp
  next
    case ALLOC_EMERGENCY_HEAD
    then show ?thesis using r by simp
  next
    case ALLOC_SURVIVOR
    then show ?thesis using r sv by simp
  qed
qed

theorem mayAlloc_admission_witness:
  "mayAlloc ALLOC_HEAD afterCleaning = Inr False \<and>
   mayAlloc ALLOC_EMERGENCY_HEAD afterCleaning = Inr True \<and>
   mayAlloc ALLOC_SURVIVOR afterCleaning = Inr True \<and>
   \<not> (uint (freeSegmentCount (allocator afterCleaning)) >
        (uint (numEmergencyHeads afterCleaning) - uint (numEmergencyHeadsAlloced afterCleaning))
        + (uint (numSurvivorSegments afterCleaning) - uint (numSurvivorSegmentsAlloced afterCleaning))) \<and>
   numSurvivorSegmentsAlloced afterCleaning < numSurvivorSegments afterCleaning"
proof -
  have h: "mayAlloc ALLOC_HEAD afterCleaning = Inr False"
    and e: "mayAlloc ALLOC_EMERGENCY_HEAD afterCleaning = Inr True"
    and v: "mayAlloc ALLOC_SURVIVOR afterCleaning = Inr True"
    by (simp_all add: mayAlloc_def afterCleaning_def)
  show ?thesis
    using h e v mayAlloc_admission [OF h] mayAlloc_admission [OF e] mayAlloc_admission [OF v]
    by simp
qed

text \<open>C10. For every call \<open>free(s)\<close> that returns: if \<open>s\<close> is not an emergency head,
  \<open>numSurvivorSegmentsAlloced\<close> is decremented if and only if it is positive, whatever the
  state of \<open>s\<close> and however it was allocated, so the counter does not wrap below zero, and
  \<open>numEmergencyHeadsAlloced\<close> is unchanged; if \<open>s\<close> is an emergency head, only
  \<open>numEmergencyHeadsAlloced\<close> is decremented.\<close>

theorem free_counters:
  assumes "free p s = Inr s'" and "segments s p = Some seg"
  shows "(\<not> isEmergencyHead seg \<longrightarrow>
            numSurvivorSegmentsAlloced s' =
              (if numSurvivorSegmentsAlloced s > 0 then numSurvivorSegmentsAlloced s - 1
               else numSurvivorSegmentsAlloced s) \<and>
            uint (numSurvivorSegmentsAlloced s') = max 0 (uint (numSurvivorSegmentsAlloced s) - 1) \<and>
            numEmergencyHeadsAlloced s' = numEmergencyHeadsAlloced s) \<and>
         (isEmergencyHead seg \<longrightarrow>
            numEmergencyHeadsAlloced s' = numEmergencyHeadsAlloced s - 1 \<and>
            numSurvivorSegmentsAlloced s' = numSurvivorSegmentsAlloced s)"
proof -
  obtain st where st: "states s p = Some st"
    using assms by (cases "states s p") (auto simp: free_def removeFromLists_def Let_def)
  show ?thesis
  proof (cases "isEmergencyHead seg")
    case True
    then show ?thesis using assms st
      by (auto simp: free_def removeFromLists_def Let_def)
  next
    case False
    show ?thesis
    proof (cases "0 < numSurvivorSegmentsAlloced s")
      case True
      then show ?thesis using assms st False uint_pred [OF True]
        by (auto simp: free_def removeFromLists_def Let_def)
    next
      case n: False
      then show ?thesis using assms st False uint_zero [OF n]
        by (auto simp: free_def removeFromLists_def Let_def)
    qed
  qed
qed

theorem free_counters_witness:
  "(\<exists>s'. free 5 withIterator = Inr s' \<and> numSurvivorSegmentsAlloced s' = 0 \<and>
          numEmergencyHeadsAlloced s' = 1) \<and>
   numSurvivorSegmentsAlloced withIterator = 1 \<and>
   (\<exists>s'. free 2 withIterator = Inr s' \<and> numSurvivorSegmentsAlloced s' = 1 \<and>
          numEmergencyHeadsAlloced s' = 0)"
proof -
  obtain s5 where f5: "free 5 withIterator = Inr s5"
    by (simp add: free_def removeFromLists_def withIterator_def)
  obtain s2 where f2: "free 2 withIterator = Inr s2"
    by (simp add: free_def removeFromLists_def withIterator_def)
  have g5: "segments withIterator 5 = Some \<lparr> id = 0, isEmergencyHead = False, cleanedEpoch = 1,
              segletsAllocated = 4,
              entries = [LOG_ENTRY_TYPE_SEGHEADER 7 0 1024 (- 1), LOG_ENTRY_TYPE_LOGDIGEST [0]],
              appendsDisabled = False \<rparr>"
    by (simp add: withIterator_def)
  have g2: "segments withIterator 2 = Some \<lparr> id = 3, isEmergencyHead = True, cleanedEpoch = 0,
              segletsAllocated = 4,
              entries = [LOG_ENTRY_TYPE_SEGHEADER 7 3 1024 (- 1), LOG_ENTRY_TYPE_LOGDIGEST [1, 2, 3]],
              appendsDisabled = True \<rparr>"
    by (simp add: withIterator_def)
  have c: "numSurvivorSegmentsAlloced withIterator = 1" "numEmergencyHeadsAlloced withIterator = 1"
    by (simp_all add: withIterator_def)
  show ?thesis
    using free_counters [OF f5 g5] free_counters [OF f2 g2] f5 f2 c by simp
qed

text \<open>C7, at the input where the code and the claim part. In the state \<open>oneFree\<close> one
  segment is free and two emergency heads are reserved, so the free segment count minus
  \<open>numEmergencyHeads\<close> is below zero and no reserve is small enough; the subtraction of the
  source wraps and \<open>increaseSurvivorReserve(5)\<close> sets the reserve to 5 and returns true.
  The next admission check then fails its own assertion.\<close>

theorem increaseSurvivorReserve_wraps:
  "reachable oneFree \<and>
   freeSegmentCount (allocator oneFree) = 1 \<and> numEmergencyHeads oneFree = 2 \<and>
   numSurvivorSegments oneFree = 0 \<and>
   \<not> (uint (5 :: 32 word)
        \<le> uint (freeSegmentCount (allocator oneFree)) - uint (numEmergencyHeads oneFree)) \<and>
   increaseSurvivorReserve 5 oneFree = (True, oneFree\<lparr> numSurvivorSegments := 5 \<rparr>) \<and>
   mayAlloc ALLOC_HEAD (snd (increaseSurvivorReserve 5 oneFree)) = Inl AssertionFailure"
  using oneFree_reachable
  by (simp add: increaseSurvivorReserve_def mayAlloc_def oneFree_def)

text \<open>C5. In a well-formed state \<open>freeUnreferencedSegments\<close> returns, and it frees exactly
  the segments on the list of \<open>FREEABLE_PENDING_REFERENCES\<close> whose cleaned epoch is strictly
  less than the earliest outstanding epoch (the list \<open>F\<close>): the slots of \<open>F\<close> are appended
  to the free-slot pool, their ids are erased from the id-to-slot index, they are removed
  from every list, and their state and segment objects are destroyed; every other slot
  keeps its segment and state. So a segment whose cleaned epoch is greater than or equal
  to the earliest outstanding epoch is not freed by the scan.\<close>

theorem freeUnreferencedSegments_frees:
  assumes wf: "wellFormed s"
  shows "\<exists>s' F. freeUnreferencedSegments s = Inr s' \<and>
           F = filter (\<lambda>p. \<exists>seg. segments s p = Some seg \<and> cleanedEpoch seg < earliestOutstandingEpoch s)
                 (segmentsByState s FREEABLE_PENDING_REFERENCES) \<and>
           (\<forall>p. segments s' p = (if p \<in> set F then None else segments s p)) \<and>
           (\<forall>p. states s' p = (if p \<in> set F then None else states s p)) \<and>
           freeSlots s' = freeSlots s @ F \<and>
           (\<forall>i. idToSlotMap s' i = (if i \<in> set (segmentIds s F) then None else idToSlotMap s i)) \<and>
           (\<forall>st. segmentsByState s' st = filter (\<lambda>p. p \<notin> set F) (segmentsByState s st)) \<and>
           allSegments s' = filter (\<lambda>p. p \<notin> set F) (allSegments s) \<and>
           (\<forall>p seg. segments s p = Some seg \<and> earliestOutstandingEpoch s \<le> cleanedEpoch seg
               \<longrightarrow> segments s' p = Some seg)"
proof -
  let ?F = "filter (unreferenced (earliestOutstandingEpoch s) s)
              (segmentsByState s FREEABLE_PENDING_REFERENCES)"
  obtain s' where f: "freeUnreferencedSegments s = Inr s'" and r: "released ?F s s'"
    using freeUnreferencedSegments_released [OF wf] by blast
  have u: "unreferenced (earliestOutstandingEpoch s) s =
           (\<lambda>p. \<exists>seg. segments s p = Some seg \<and> cleanedEpoch seg < earliestOutstandingEpoch s)"
    by (auto simp: unreferenced_def fun_eq_iff split: option.splits)
  have keep: "segments s' p = Some seg"
    if "segments s p = Some seg" "earliestOutstandingEpoch s \<le> cleanedEpoch seg" for p seg
  proof -
    have "\<not> unreferenced (earliestOutstandingEpoch s) s p"
      using that by (simp add: unreferenced_def not_less)
    then have "p \<notin> set ?F" by simp
    then show ?thesis using r that by (simp add: released_def)
  qed
  show ?thesis
    apply (rule exI [of _ s'], rule exI [of _ ?F])
    using f r keep unfolding u released_def by simp
qed

theorem freeUnreferencedSegments_frees_witness:
  "wellFormed withIterator \<and>
   (\<exists>s'. freeUnreferencedSegments withIterator = Inr s' \<and>
      segments s' 5 = None \<and> states s' 5 = None \<and> freeSlots s' = [0, 1, 5] \<and>
      idToSlotMap s' 0 = None \<and> segmentsByState s' FREEABLE_PENDING_REFERENCES = [] \<and>
      allSegments s' = [2, 4, 3] \<and> segments s' 4 = segments withIterator 4 \<and>
      segments s' 4 \<noteq> None)"
proof -
  obtain s' F where f: "freeUnreferencedSegments withIterator = Inr s'"
    and F: "F = filter (\<lambda>p. \<exists>seg. segments withIterator p = Some seg \<and>
                        cleanedEpoch seg < earliestOutstandingEpoch withIterator)
                 (segmentsByState withIterator FREEABLE_PENDING_REFERENCES)"
    and p: "\<forall>p. segments s' p = (if p \<in> set F then None else segments withIterator p)"
           "\<forall>p. states s' p = (if p \<in> set F then None else states withIterator p)"
           "freeSlots s' = freeSlots withIterator @ F"
           "\<forall>i. idToSlotMap s' i = (if i \<in> set (segmentIds withIterator F) then None
                                     else idToSlotMap withIterator i)"
           "\<forall>st. segmentsByState s' st = filter (\<lambda>p. p \<notin> set F) (segmentsByState withIterator st)"
           "allSegments s' = filter (\<lambda>p. p \<notin> set F) (allSegments withIterator)"
    using freeUnreferencedSegments_frees [OF withIterator_wf] by blast
  have F5: "F = [5]" unfolding F by (simp add: withIterator_def)
  have ids: "segmentIds withIterator [5] = [0]"
    by (simp add: segmentIds_def List.map_filter_def withIterator_def)
  show ?thesis
    using withIterator_wf f p unfolding F5 ids
    by (simp add: withIterator_def)
qed

text \<open>C9. When \<open>allocHead\<close> returns absent in a well-formed state, \<open>mustNotFail\<close> was
  false and the state it leaves is the state after the reclamation scan: every segment in
  \<open>FREEABLE_PENDING_REFERENCES\<close> whose cleaned epoch is below the earliest outstanding
  epoch has been freed (so the state is not in general the state before the call), the
  list of \<open>HEAD\<close> and the head segment are unchanged, no segment exists that did not exist
  before, and no segment id was consumed.\<close>

theorem allocHead_absent:
  assumes wf: "wellFormed s"
    and a: "allocHead fits mustNotFail s = Some (Inr (None, s'))"
  shows "freeUnreferencedSegments s = Inr s' \<and>
         (\<forall>p seg. states s p = Some FREEABLE_PENDING_REFERENCES \<and> segments s p = Some seg \<and>
                  cleanedEpoch seg < earliestOutstandingEpoch s \<longrightarrow>
                  segments s' p = None \<and> p \<in> set (freeSlots s')) \<and>
         segmentsByState s' HEAD = segmentsByState s HEAD \<and>
         (\<forall>h \<in> set (segmentsByState s HEAD). segments s' h = segments s h) \<and>
         (\<forall>p. segments s' p \<noteq> None \<longrightarrow> segments s' p = segments s p) \<and>
         nextSegmentId s' = nextSegmentId s \<and>
         \<not> mustNotFail"
proof -
  let ?F = "filter (unreferenced (earliestOutstandingEpoch s) s)
              (segmentsByState s FREEABLE_PENDING_REFERENCES)"
  note c = allocHead_absent_cases [OF wf a]
  have r: "released ?F s s'"
    using freeUnreferencedSegments_released [OF wf] c by auto
  have mem: "\<And>st p. p \<in> set (segmentsByState s st) \<longleftrightarrow> states s p = Some st"
    using wf unfolding wellFormed_def by blast
  have inF: "p \<in> set ?F \<Longrightarrow> states s p = Some FREEABLE_PENDING_REFERENCES" for p
    using mem by simp
  have gone: "segments s' p = None \<and> p \<in> set (freeSlots s')"
    if "states s p = Some FREEABLE_PENDING_REFERENCES" "segments s p = Some seg"
       "cleanedEpoch seg < earliestOutstandingEpoch s" for p seg
  proof -
    have "p \<in> set ?F" using that mem by (simp add: unreferenced_def)
    then show ?thesis using r by (simp add: released_def)
  qed
  have hd: "filter (\<lambda>p. p \<notin> set ?F) (segmentsByState s HEAD) = segmentsByState s HEAD"
    using mem inF by (intro filter_True) (metis State.distinct(11) option.inject)
  have hs: "segments s' h = segments s h" if "h \<in> set (segmentsByState s HEAD)" for h
  proof -
    have "h \<notin> set ?F" using that mem inF by (metis State.distinct(11) option.inject)
    then show ?thesis using r by (auto simp: released_def)
  qed
  show ?thesis
    using c r gone hd hs by (auto simp: released_def)
qed

theorem allocHead_absent_witness:
  "wellFormed withIterator \<and>
   (\<exists>s'. allocHead anyFits False withIterator = Some (Inr (None, s')) \<and>
      freeUnreferencedSegments withIterator = Inr s' \<and>
      states withIterator 5 = Some FREEABLE_PENDING_REFERENCES \<and>
      segments withIterator 5 \<noteq> None \<and> segments s' 5 = None \<and>
      segmentsByState s' HEAD = [2] \<and> segments s' 2 = segments withIterator 2 \<and>
      nextSegmentId s' = 4)"
proof -
  obtain s' where a: "allocHead anyFits False withIterator = Some (Inr (None, s'))"
    by (simp add: evaluate withIterator_def)
  have g: "states withIterator 5 = Some FREEABLE_PENDING_REFERENCES"
     "segments withIterator 5 = Some \<lparr> id = 0, isEmergencyHead = False, cleanedEpoch = 1,
              segletsAllocated = 4,
              entries = [LOG_ENTRY_TYPE_SEGHEADER 7 0 1024 (- 1), LOG_ENTRY_TYPE_LOGDIGEST [0]],
              appendsDisabled = False \<rparr>"
     "earliestOutstandingEpoch withIterator = 5"
     "segmentsByState withIterator HEAD = [2]" "nextSegmentId withIterator = 4"
    by (simp_all add: withIterator_def)
  show ?thesis
    using allocHead_absent [OF withIterator_wf a] withIterator_wf a g by simp
qed

text \<open>C1. Every head allocation that returns a head writes a header and a log digest
  into the new head. In a well-formed state whose live segment ids are distinct and below
  \<open>nextSegmentId\<close>, with at most one head, the digest has no duplicates and its ids are
  exactly: the id of the new head; the id of every segment in \<open>CLEANABLE\<close>; of every
  segment in \<open>NEWLY_CLEANABLE\<close>, and, when no iterator is active, of every segment in
  \<open>CLEANABLE_PENDING_DIGEST\<close> (moved to \<open>NEWLY_CLEANABLE\<close> by this digest write); of the
  previous head when it is not an emergency head; and, when an iterator is active, of every
  segment in \<open>FREEABLE_PENDING_DIGEST_AND_REFERENCES\<close>. The states are those before the
  call.\<close>

theorem allocHead_digest:
  assumes wf: "wellFormed s" and ids: "idsOk s"
    and hd: "length (segmentsByState s HEAD) \<le> 1"
    and a: "allocHead fits mustNotFail s = Some (Inr (Some n, s'))"
  shows "\<exists>new d. segments s' n = Some new \<and> id new = nextSegmentId s \<and>
           entries new =
             [LOG_ENTRY_TYPE_SEGHEADER (logId s) (nextSegmentId s) (segmentSize (allocator s))
                INVALID_SEGMENT_ID,
              LOG_ENTRY_TYPE_LOGDIGEST d] \<and>
           distinct d \<and>
           set d =
             {i. i = id new \<or>
                 (\<exists>p seg. segments s p = Some seg \<and> id seg = i \<and>
                    (states s p = Some CLEANABLE \<or> states s p = Some NEWLY_CLEANABLE \<or>
                     (logIteratorCount s = 0 \<and> states s p = Some CLEANABLE_PENDING_DIGEST) \<or>
                     (states s p = Some HEAD \<and> \<not> isEmergencyHead seg) \<or>
                     (logIteratorCount s \<noteq> 0 \<and>
                        states s p = Some FREEABLE_PENDING_DIGEST_AND_REFERENCES)))}"
proof -
  obtain new :: LogSegment where "segments s' n = Some new" "id new = nextSegmentId s"
    "entries new =
       [LOG_ENTRY_TYPE_SEGHEADER (logId s) (nextSegmentId s) (segmentSize (allocator s))
          INVALID_SEGMENT_ID,
        LOG_ENTRY_TYPE_LOGDIGEST (digestOf s)]"
    using allocHead_writes_digestOf [OF wf hd a] by blast
  then show ?thesis
    using digestOf_distinct [OF wf ids] digestOf_set [OF wf hd] by auto
qed

theorem allocHead_digest_witness:
  "wellFormed afterCleaning \<and> idsOk afterCleaning \<and>
   length (segmentsByState afterCleaning HEAD) \<le> 1 \<and>
   (\<exists>s' new. allocHead anyFits False afterCleaning = Some (Inr (Some 2, s')) \<and>
      segments s' 2 = Some new \<and> id new = 3 \<and>
      entries new = [LOG_ENTRY_TYPE_SEGHEADER 7 3 1024 INVALID_SEGMENT_ID,
                     LOG_ENTRY_TYPE_LOGDIGEST [1, 2, 3]] \<and>
      set [1, 2, 3] =
        {i. i = id new \<or>
            (\<exists>p seg. segments afterCleaning p = Some seg \<and> id seg = i \<and>
               (states afterCleaning p = Some CLEANABLE \<or>
                states afterCleaning p = Some NEWLY_CLEANABLE \<or>
                (logIteratorCount afterCleaning = 0 \<and>
                   states afterCleaning p = Some CLEANABLE_PENDING_DIGEST) \<or>
                (states afterCleaning p = Some HEAD \<and> \<not> isEmergencyHead seg) \<or>
                (logIteratorCount afterCleaning \<noteq> 0 \<and>
                   states afterCleaning p = Some FREEABLE_PENDING_DIGEST_AND_REFERENCES)))})"
proof -
  have hd: "length (segmentsByState afterCleaning HEAD) \<le> 1"
    by (simp add: afterCleaning_def)
  have "\<exists>s' new. allocHead anyFits False afterCleaning = Some (Inr (Some 2, s')) \<and>
          segments s' 2 = Some new \<and>
          entries new = [LOG_ENTRY_TYPE_SEGHEADER 7 3 1024 INVALID_SEGMENT_ID,
                         LOG_ENTRY_TYPE_LOGDIGEST [1, 2, 3]]"
    by (simp add: evaluate afterCleaning_def)
  then obtain s' and new :: LogSegment
    where a: "allocHead anyFits False afterCleaning = Some (Inr (Some 2, s'))"
      and n: "segments s' 2 = Some new"
             "entries new = [LOG_ENTRY_TYPE_SEGHEADER 7 3 1024 INVALID_SEGMENT_ID,
                             LOG_ENTRY_TYPE_LOGDIGEST [1, 2, 3]]"
    by blast
  show ?thesis
    using allocHead_digest [OF afterCleaning_wf afterCleaning_ids hd a] a n
      afterCleaning_wf afterCleaning_ids hd
    by (auto simp: afterCleaning_def)
qed

text \<open>C3. When the allocation of a normal head fails (\<open>alloc(ALLOC_HEAD)\<close> returns
  \<open>NULL\<close>, leaving the state \<open>s1\<close> after the reclamation scan): if \<open>mustNotFail\<close> is true
  or a segment is in \<open>FREEABLE_PENDING_DIGEST_AND_REFERENCES\<close>, \<open>allocHead\<close> goes on with
  \<open>alloc(ALLOC_EMERGENCY_HEAD)\<close>, it never returns absent, and every head it returns is an
  emergency head; otherwise it returns absent, as a normal result and not as an error, in
  the state \<open>s1\<close>.\<close>

theorem allocHead_emergency:
  assumes wf: "wellFormed s" and hd: "length (segmentsByState s HEAD) \<le> 1"
    and fail: "alloc ALLOC_HEAD s = Inr (None, s1)"
  shows "(mustNotFail \<or> segmentsByState s FREEABLE_PENDING_DIGEST_AND_REFERENCES \<noteq> [] \<longrightarrow>
            allocHead fits mustNotFail s =
              (case alloc ALLOC_EMERGENCY_HEAD s1 of
                 Inl e \<Rightarrow> Some (Inl e)
               | Inr (None, s2) \<Rightarrow> Some (Inl InvalidSegment)
               | Inr (Some n, s2) \<Rightarrow> allocHead_install fits (headOf s) n s2) \<and>
            (\<forall>r s'. allocHead fits mustNotFail s = Some (Inr (r, s')) \<longrightarrow>
               (\<exists>n new. r = Some n \<and> segments s' n = Some new \<and> isEmergencyHead new))) \<and>
         (\<not> (mustNotFail \<or> segmentsByState s FREEABLE_PENDING_DIGEST_AND_REFERENCES \<noteq> []) \<longrightarrow>
            allocHead fits mustNotFail s = Some (Inr (None, s1)))"
proof -
  obtain x where f: "freeUnreferencedSegments s = Inr x"
    using freeUnreferencedSegments_released [OF wf] by blast
  have x: "x = s1" using fail by (auto simp: alloc_eq [OF f] split: sum.splits bool.splits if_splits)
  have l: "segmentsByState s1 FREEABLE_PENDING_DIGEST_AND_REFERENCES
           = segmentsByState s FREEABLE_PENDING_DIGEST_AND_REFERENCES"
    using scan_list_other [OF wf f] x by simp
  have e: "allocHead fits mustNotFail s =
             (if mustNotFail \<or> segmentsByState s FREEABLE_PENDING_DIGEST_AND_REFERENCES \<noteq> []
              then (case alloc ALLOC_EMERGENCY_HEAD s1 of
                      Inl e \<Rightarrow> Some (Inl e)
                    | Inr (None, s2) \<Rightarrow> Some (Inl InvalidSegment)
                    | Inr (Some n, s2) \<Rightarrow> allocHead_install fits (headOf s) n s2)
              else Some (Inr (None, s1)))"
    by (simp add: allocHead_def getHeadSegment_eq [OF hd] fail l)
  have em: "\<exists>n new. r = Some n \<and> segments s' n = Some new \<and> isEmergencyHead new"
    if c: "mustNotFail \<or> segmentsByState s FREEABLE_PENDING_DIGEST_AND_REFERENCES \<noteq> []"
      and a: "allocHead fits mustNotFail s = Some (Inr (r, s'))" for r s'
  proof (cases r)
    case None
    have "\<not> mustNotFail \<and> segmentsByState s' FREEABLE_PENDING_DIGEST_AND_REFERENCES = [] \<and>
          freeUnreferencedSegments s = Inr s'"
      using allocHead_absent_cases [OF wf] a None by blast
    then show ?thesis using c f x l by simp
  next
    case (Some n)
    obtain new :: LogSegment where "segments s' n = Some new"
      "isEmergencyHead new \<longleftrightarrow> (\<exists>s1. alloc ALLOC_HEAD s = Inr (None, s1))"
      using allocHead_writes_digestOf [OF wf hd] a Some by blast
    then show ?thesis using Some fail by auto
  qed
  show ?thesis using e em by auto
qed

theorem allocHead_emergency_witness:
  "wellFormed afterCleaning \<and> length (segmentsByState afterCleaning HEAD) \<le> 1 \<and>
   alloc ALLOC_HEAD afterCleaning = Inr (None, afterCleaning) \<and>
   segmentsByState afterCleaning FREEABLE_PENDING_DIGEST_AND_REFERENCES \<noteq> [] \<and>
   (\<exists>s' new. allocHead anyFits False afterCleaning = Some (Inr (Some 2, s')) \<and>
      segments s' 2 = Some new \<and> isEmergencyHead new) \<and>
   wellFormed withIterator \<and> length (segmentsByState withIterator HEAD) \<le> 1 \<and>
   segmentsByState withIterator FREEABLE_PENDING_DIGEST_AND_REFERENCES = [] \<and>
   (\<exists>s1. alloc ALLOC_HEAD withIterator = Inr (None, s1) \<and>
      allocHead anyFits False withIterator = Some (Inr (None, s1)))"
proof -
  have hdA: "length (segmentsByState afterCleaning HEAD) \<le> 1"
    and fA: "alloc ALLOC_HEAD afterCleaning = Inr (None, afterCleaning)"
    and lA: "segmentsByState afterCleaning FREEABLE_PENDING_DIGEST_AND_REFERENCES \<noteq> []"
    by (simp_all add: evaluate afterCleaning_def)
  obtain s' where a: "allocHead anyFits False afterCleaning = Some (Inr (Some 2, s'))"
    by (simp add: evaluate afterCleaning_def)
  have hdI: "length (segmentsByState withIterator HEAD) \<le> 1"
    and lI: "segmentsByState withIterator FREEABLE_PENDING_DIGEST_AND_REFERENCES = []"
    by (simp_all add: withIterator_def)
  obtain s1 where fI: "alloc ALLOC_HEAD withIterator = Inr (None, s1)"
    by (simp add: evaluate withIterator_def)
  note tA = allocHead_emergency [OF afterCleaning_wf hdA fA, of False anyFits]
  have "\<exists>n new. Some 2 = Some n \<and> segments s' n = Some new \<and> isEmergencyHead new"
    using tA lA a by blast
  then obtain new :: LogSegment where nw: "segments s' 2 = Some new" "isEmergencyHead new"
    by auto
  note tI = allocHead_emergency [OF withIterator_wf hdI fI, of False anyFits]
  have aI: "allocHead anyFits False withIterator = Some (Inr (None, s1))"
    using tI lI by simp
  show ?thesis
    using afterCleaning_wf withIterator_wf hdA fA lA a nw hdI lI fI aI by blast
qed








text \<open>C2, as the claim states it: no segment in \<open>FREEABLE_PENDING_REFERENCES\<close> is freed
  while the iterator count is positive. In the state \<open>withIterator\<close> one iterator exists and
  the segment of slot 5 is in \<open>FREEABLE_PENDING_REFERENCES\<close> with cleaned epoch 1, below
  the earliest outstanding epoch 5. \<open>allocHead(false)\<close> begins with the reclamation scan,
  which does not read the count: the segment is freed and its slot returned to the pool,
  and the count is still 1 when the call returns (absent: no segment is left for a normal
  head).\<close>

theorem scan_frees_while_iterating:
  "reachable withIterator \<and> 0 < logIteratorCount withIterator \<and>
   states withIterator 5 = Some FREEABLE_PENDING_REFERENCES \<and>
   segments withIterator 5 \<noteq> None \<and>
   allocHead anyFits False withIterator = Some (Inr (None, reclaimed)) \<and>
   0 < logIteratorCount reclaimed \<and>
   segments reclaimed 5 = None \<and> states reclaimed 5 = None \<and>
   freeSlots reclaimed = [0, 1, 5]"
proof -
  have "allocHead anyFits False withIterator = Some (Inr (None, reclaimed))"
    by (simp add: evaluate withIterator_def reclaimed_def fun_eq_iff)
  then show ?thesis
    using withIterator_reachable by (simp add: withIterator_def reclaimed_def)
qed

text \<open>C2. Whenever \<open>logIteratorCount > 0\<close>: writing a digest ends and performs no state
  transition (no state and no list changes), so in every \<open>allocHead\<close> from a reachable state the
  segments in \<open>CLEANABLE_PENDING_DIGEST\<close> and in \<open>FREEABLE_PENDING_DIGEST_AND_REFERENCES\<close>
  stay in their state; no segment enters \<open>FREEABLE_PENDING_REFERENCES\<close> by any sequence of
  operations for as long as the count stays positive (a segment that is in
  \<open>FREEABLE_PENDING_REFERENCES\<close> at the end was there at the start); and the reclamation
  scan, which does not consult the count, returns and frees every segment of
  \<open>FREEABLE_PENDING_REFERENCES\<close> whose cleaned epoch is below the earliest outstanding
  epoch, leaving the count as it was.\<close>

theorem iteration_suppresses:
  assumes c: "0 < logIteratorCount s"
  shows "(wellFormed s \<longrightarrow> (\<forall>fits n prev. \<exists>r. writeDigest fits n prev s = Some r)) \<and>
         (\<forall>fits n prev s'.
            wellFormed s \<and> writeDigest fits n prev s = Some (Inr s') \<longrightarrow>
              states s' = states s \<and> segmentsByState s' = segmentsByState s) \<and>
         (reachable s \<longrightarrow> (\<forall>fits mustNotFail. \<exists>r. allocHead fits mustNotFail s = Some r)) \<and>
         (\<forall>fits mustNotFail r s' p.
            reachable s \<and> allocHead fits mustNotFail s = Some (Inr (r, s')) \<longrightarrow>
              (states s p = Some CLEANABLE_PENDING_DIGEST \<longrightarrow>
                 states s' p = Some CLEANABLE_PENDING_DIGEST) \<and>
              (states s p = Some FREEABLE_PENDING_DIGEST_AND_REFERENCES \<longrightarrow>
                 states s' p = Some FREEABLE_PENDING_DIGEST_AND_REFERENCES)) \<and>
         (\<forall>fits cs t p.
            reachable s \<and> whileIterating fits cs s = Some t \<and>
            states t p = Some FREEABLE_PENDING_REFERENCES \<longrightarrow>
              states s p = Some FREEABLE_PENDING_REFERENCES) \<and>
         (wellFormed s \<longrightarrow>
            (\<exists>u. freeUnreferencedSegments s = Inr u \<and>
               logIteratorCount u = logIteratorCount s \<and>
               (\<forall>p seg. states s p = Some FREEABLE_PENDING_REFERENCES \<and>
                  segments s p = Some seg \<and> cleanedEpoch seg < earliestOutstandingEpoch s \<longrightarrow>
                    segments u p = None \<and> states u p = None)))"
proof (intro conjI allI impI)
  fix fits n prev
  assume "wellFormed s"
  then show "\<exists>r. writeDigest fits n prev s = Some r"
    using writeDigest_ends [of s fits n prev] by auto
next
  fix fits mustNotFail
  assume "reachable s"
  then have "wellFormed s" using reachable_inv by (auto simp: headInvariant_def)
  then show "\<exists>r. allocHead fits mustNotFail s = Some r"
    using allocHead_ends [of s fits mustNotFail] by auto
next
  fix fits n prev s'
  assume h: "wellFormed s \<and> writeDigest fits n prev s = Some (Inr s')"
  show "states s' = states s" "segmentsByState s' = segmentsByState s"
    using writeDigest_iterating [of s fits n prev s'] h c by simp_all
next
  fix fits mustNotFail r s' p
  assume h: "reachable s \<and> allocHead fits mustNotFail s = Some (Inr (r, s'))"
  then have i: "headInvariant s" using reachable_inv by blast
  have c': "logIteratorCount s \<noteq> 0" using c by simp
  { assume "states s p = Some CLEANABLE_PENDING_DIGEST"
    then show "states s' p = Some CLEANABLE_PENDING_DIGEST"
      using allocHead_iterating(2) [OF i c', of fits mustNotFail r s' p] h by blast }
  { assume "states s p = Some FREEABLE_PENDING_DIGEST_AND_REFERENCES"
    then show "states s' p = Some FREEABLE_PENDING_DIGEST_AND_REFERENCES"
      using allocHead_iterating(3) [OF i c', of fits mustNotFail r s' p] h by blast }
next
  fix fits cs t p
  assume h: "reachable s \<and> whileIterating fits cs s = Some t \<and>
             states t p = Some FREEABLE_PENDING_REFERENCES"
  then have i: "headInvariant s" using reachable_inv by blast
  show "states s p = Some FREEABLE_PENDING_REFERENCES"
    using whileIterating_enters [OF i, of fits cs t p] h by blast
next
  assume wf: "wellFormed s"
  let ?F = "filter (unreferenced (earliestOutstandingEpoch s) s)
              (segmentsByState s FREEABLE_PENDING_REFERENCES)"
  obtain u where f: "freeUnreferencedSegments s = Inr u" and r: "released ?F s u"
    using freeUnreferencedSegments_released [OF wf] by blast
  have "segments u p = None \<and> states u p = None"
    if "states s p = Some FREEABLE_PENDING_REFERENCES" "segments s p = Some seg"
       "cleanedEpoch seg < earliestOutstandingEpoch s" for p seg
  proof -
    have "p \<in> set ?F" using that wf_mem [OF wf, of p FREEABLE_PENDING_REFERENCES]
      by (simp add: unreferenced_def)
    then show ?thesis using r by (simp add: released_def)
  qed
  moreover have "logIteratorCount u = logIteratorCount s" using r by (simp add: released_def)
  ultimately show "\<exists>u. freeUnreferencedSegments s = Inr u \<and>
               logIteratorCount u = logIteratorCount s \<and>
               (\<forall>p seg. states s p = Some FREEABLE_PENDING_REFERENCES \<and>
                  segments s p = Some seg \<and> cleanedEpoch seg < earliestOutstandingEpoch s \<longrightarrow>
                    segments u p = None \<and> states u p = None)"
    using f by blast
qed

theorem iteration_suppresses_witness:
  "0 < logIteratorCount duringIteration \<and> wellFormed duringIteration \<and>
   reachable duringIteration \<and>
   states duringIteration 4 = Some CLEANABLE_PENDING_DIGEST \<and>
   states duringIteration 5 = Some FREEABLE_PENDING_DIGEST_AND_REFERENCES \<and>
   (\<exists>s'. writeDigest anyFits 3 None duringIteration = Some (Inr s') \<and>
      states s' = states duringIteration \<and>
      segmentsByState s' = segmentsByState duringIteration) \<and>
   (\<exists>s'. allocHead anyFits False duringIteration = Some (Inr (Some 2, s')) \<and>
      states s' 4 = Some CLEANABLE_PENDING_DIGEST \<and>
      states s' 5 = Some FREEABLE_PENDING_DIGEST_AND_REFERENCES) \<and>
   0 < logIteratorCount withIterator \<and> wellFormed withIterator \<and> reachable withIterator \<and>
   (\<exists>t. whileIterating anyFits [RpcEpochs 9 0, AllocHead True, CleanableSegments []] withIterator
          = Some t \<and>
      states t 5 = Some FREEABLE_PENDING_REFERENCES) \<and>
   states withIterator 5 = Some FREEABLE_PENDING_REFERENCES \<and>
   (\<exists>u. freeUnreferencedSegments withIterator = Inr u \<and> logIteratorCount u = 1 \<and>
      segments u 5 = None \<and> states u 5 = None)"
proof -
  have cD: "0 < logIteratorCount duringIteration"
    by (simp add: duringIteration_def)
  have cI: "0 < logIteratorCount withIterator" "logIteratorCount withIterator = 1"
    by (simp_all add: withIterator_def)
  have gD: "states duringIteration 4 = Some CLEANABLE_PENDING_DIGEST"
    "states duringIteration 5 = Some FREEABLE_PENDING_DIGEST_AND_REFERENCES"
    by (simp_all add: duringIteration_def afterCleaning_def)
  obtain sD where wD: "writeDigest anyFits 3 None duringIteration = Some (Inr sD)"
    by (simp add: evaluate duringIteration_def afterCleaning_def)
  obtain sA where aD: "allocHead anyFits False duringIteration = Some (Inr (Some 2, sA))"
    by (simp add: evaluate duringIteration_def afterCleaning_def)
  obtain t where wI: "whileIterating anyFits [RpcEpochs 9 0, AllocHead True, CleanableSegments []]
                        withIterator = Some t"
    and tI: "states t 5 = Some FREEABLE_PENDING_REFERENCES"
    by (simp add: evaluate withIterator_def)
  have gI: "\<exists>seg. segments withIterator 5 = Some seg \<and>
              cleanedEpoch seg < earliestOutstandingEpoch withIterator"
    by (simp add: withIterator_def)
  note tD = iteration_suppresses [OF cD]
  note tI' = iteration_suppresses [OF cI(1)]
  note digest = tD [THEN conjunct2, THEN conjunct1]
  note heads = tD [THEN conjunct2, THEN conjunct2, THEN conjunct2, THEN conjunct1]
  note enters = tI' [THEN conjunct2, THEN conjunct2, THEN conjunct2, THEN conjunct2,
                     THEN conjunct1]
  note scan = tI' [THEN conjunct2, THEN conjunct2, THEN conjunct2, THEN conjunct2,
                   THEN conjunct2]
  have 1: "states sD = states duringIteration \<and>
           segmentsByState sD = segmentsByState duringIteration"
    using digest duringIteration_wf wD by blast
  have 2: "states sA 4 = Some CLEANABLE_PENDING_DIGEST \<and>
           states sA 5 = Some FREEABLE_PENDING_DIGEST_AND_REFERENCES"
    using heads duringIteration_reachable aD gD by blast
  have 3: "states withIterator 5 = Some FREEABLE_PENDING_REFERENCES"
    using enters withIterator_reachable wI tI by blast
  obtain u where u: "freeUnreferencedSegments withIterator = Inr u"
    "logIteratorCount u = logIteratorCount withIterator"
    "\<forall>p seg. states withIterator p = Some FREEABLE_PENDING_REFERENCES \<and>
        segments withIterator p = Some seg \<and>
        cleanedEpoch seg < earliestOutstandingEpoch withIterator \<longrightarrow>
          segments u p = None \<and> states u p = None"
    using scan withIterator_wf by blast
  have 4: "segments u 5 = None \<and> states u 5 = None" using u(3) 3 gI by blast
  show ?thesis
    using cD cI duringIteration_wf duringIteration_reachable gD wD 1 aD 2
      withIterator_wf withIterator_reachable wI tI 3 u(1,2) 4
    by auto
qed

end
